theory Spec2Isabelle
  imports
    Main
    "HOL-Library.Word"
    "HOL-Library.Multiset"
    "HOL-Library.Char_ord"
    "HOL-Library.List_Lexorder"
begin

unbundle bit_operations_syntax

chapter \<open>BletchMAME: info database builder and task workers\<close>

text \<open>
  A shallow embedding of the parts of \<^verbatim>\<open>utility.h\<close>, \<^verbatim>\<open>utility.cpp\<close>,
  \<^verbatim>\<open>info_builder.cpp\<close>, \<^verbatim>\<open>listxmltask.cpp\<close> and \<^verbatim>\<open>runmachinetask.cpp\<close>
  that build the machine database and report the outcome of the worker tasks.
  Bytes are \<open>8 word\<close>, string references and record indices are \<open>32 word\<close>,
  container sizes (\<^verbatim>\<open>size_t\<close>) are natural numbers, C++ exceptions and
  precondition violations are values of a sum type.
\<close>

type_synonym uint8 = "8 word"
type_synonym uint32 = "32 word"

section \<open>Failures\<close>

text \<open>
  What can go wrong inside the modelled functions: a C++ exception (only
  \<^verbatim>\<open>std::logic_error\<close> is thrown), a violated \<^verbatim>\<open>assert\<close>, and a read outside
  an array or a view, which C++ leaves undefined.
\<close>

datatype failure =
    logic_error string
  | assertion_failed string
  | ReadPastEnd nat

section \<open>utility.h: salt\<close>

text \<open>
  \<^verbatim>\<open>salt(destination, original, original_size, salt, salt_size)\<close> writes
  \<^verbatim>\<open>original[i] ^ salt[i % salt_size]\<close> for every \<^verbatim>\<open>i < original_size\<close>.
  The remainder by zero is undefined in C++, so an empty salt with a non-empty
  original has no result; the template wrapper passes \<^verbatim>\<open>sizeof(salt_value)\<close>,
  which is never zero.
\<close>

definition salt :: "uint8 list \<Rightarrow> uint8 list \<Rightarrow> uint8 list option" where
  "salt original salt_value =
     (if original \<noteq> [] \<and> salt_value = [] then None
      else Some (map (\<lambda>i. (original ! i) XOR (salt_value ! (i mod length salt_value)))
                     [0 ..< length original]))"

section \<open>utility.cpp: hexDigit and binaryFromHex\<close>

definition hexDigit :: "char \<Rightarrow> uint8 option" where
  "hexDigit ch =
     (if ch \<in> set ''0123456789'' then Some (of_char ch - of_char (CHR ''0''))
      else if ch \<in> set ''ABCDEF'' then Some (of_char ch - of_char (CHR ''A'') + 10)
      else if ch \<in> set ''abcdef'' then Some (of_char ch - of_char (CHR ''a'') + 10)
      else None)"

text \<open>
  \<^verbatim>\<open>std::string_view::operator[]\<close> requires \<^verbatim>\<open>pos < size()\<close>; a read at any
  other position is outside the view.  The model makes that read a failure that
  records the offending position.
\<close>

definition char_at :: "string \<Rightarrow> nat \<Rightarrow> failure + char" where
  "char_at hex i = (if i < length hex then Inr (hex ! i) else Inl (ReadPastEnd i))"

text \<open>
  The loop of \<^verbatim>\<open>util::binaryFromHex\<close>, started at \<^verbatim>\<open>pos\<close>.  The result is the
  destination span after the stores together with the final \<^verbatim>\<open>pos\<close>.
\<close>

function binaryFromHex_from :: "nat \<Rightarrow> uint8 list \<Rightarrow> string \<Rightarrow> failure + (uint8 list \<times> nat)" where
  "binaryFromHex_from pos dest hex =
     (if pos < length dest \<and> pos < length hex * 2 then
        (case char_at hex (pos * 2 + 0) of
           Inl f \<Rightarrow> Inl f
         | Inr hi \<Rightarrow>
             (case hexDigit hi of
                None \<Rightarrow> Inr (dest, pos)
              | Some hiDigit \<Rightarrow>
                  (case char_at hex (pos * 2 + 1) of
                     Inl f \<Rightarrow> Inl f
                   | Inr lo \<Rightarrow>
                       (case hexDigit lo of
                          None \<Rightarrow> Inr (dest, pos)
                        | Some loDigit \<Rightarrow>
                            binaryFromHex_from (pos + 1)
                              (dest[pos := push_bit 4 hiDigit OR loDigit]) hex))))
      else Inr (dest, pos))"
  by pat_completeness auto
termination
  by (relation "measure (\<lambda>(pos, dest, hex). length dest - pos)") auto

declare binaryFromHex_from.simps [simp del]

definition binaryFromHex :: "uint8 list \<Rightarrow> string \<Rightarrow> failure + (uint8 list \<times> nat)" where
  "binaryFromHex dest hex = binaryFromHex_from 0 dest hex"

text \<open>
  The static wrapper of \<^verbatim>\<open>info_builder.cpp\<close> calls the decoder on \<^verbatim>\<open>*hex\<close>, a
  \<^verbatim>\<open>std::string\<close>, which is converted to the view.  Behind the view lie the
  characters of the string followed by its terminator: the character at position
  \<^verbatim>\<open>size()\<close> of a \<^verbatim>\<open>std::string\<close> is the NUL byte.  \<open>stored_char_at\<close> is the read of
  \<^verbatim>\<open>hex[i]\<close> as that memory answers it when the library does not check the
  position; beyond the terminator there is nothing to read.
\<close>

abbreviation NUL :: char where "NUL \<equiv> CHR 0x00"

definition stored_char_at :: "string \<Rightarrow> nat \<Rightarrow> failure + char" where
  "stored_char_at s i =
     (if i < length s then Inr (s ! i)
      else if i = length s then Inr NUL
      else Inl (ReadPastEnd i))"

text \<open>
  The loop of \<^verbatim>\<open>util::binaryFromHex\<close> again, for a view of all of the string \<open>s\<close>,
  with the reads answered by the memory of \<open>s\<close>.
\<close>

function binaryFromHex_stored_from :: "nat \<Rightarrow> uint8 list \<Rightarrow> string \<Rightarrow> failure + (uint8 list \<times> nat)" where
  "binaryFromHex_stored_from pos dest s =
     (if pos < length dest \<and> pos < length s * 2 then
        (case stored_char_at s (pos * 2 + 0) of
           Inl f \<Rightarrow> Inl f
         | Inr hi \<Rightarrow>
             (case hexDigit hi of
                None \<Rightarrow> Inr (dest, pos)
              | Some hiDigit \<Rightarrow>
                  (case stored_char_at s (pos * 2 + 1) of
                     Inl f \<Rightarrow> Inl f
                   | Inr lo \<Rightarrow>
                       (case hexDigit lo of
                          None \<Rightarrow> Inr (dest, pos)
                        | Some loDigit \<Rightarrow>
                            binaryFromHex_stored_from (pos + 1)
                              (dest[pos := push_bit 4 hiDigit OR loDigit]) s))))
      else Inr (dest, pos))"
  by pat_completeness auto
termination
  by (relation "measure (\<lambda>(pos, dest, s). length dest - pos)") auto

declare binaryFromHex_stored_from.simps [simp del]

definition binaryFromHex_stored :: "uint8 list \<Rightarrow> string \<Rightarrow> failure + (uint8 list \<times> nat)" where
  "binaryFromHex_stored dest s = binaryFromHex_stored_from 0 dest s"

text \<open>
  The wrapper over an array of \<^verbatim>\<open>N\<close> bytes: decode when the attribute is
  present, zero-fill from \<^verbatim>\<open>pos\<close> to \<^verbatim>\<open>N\<close>, return whether \<^verbatim>\<open>pos == N\<close>.
\<close>

definition binaryFromHex_attr :: "uint8 list \<Rightarrow> string option \<Rightarrow> failure + (uint8 list \<times> bool)" where
  "binaryFromHex_attr dest hex =
     (case (case hex of Some s \<Rightarrow> binaryFromHex_stored dest s | None \<Rightarrow> Inr (dest, 0)) of
        Inl f \<Rightarrow> Inl f
      | Inr (dest', pos) \<Rightarrow>
          Inr (take pos dest' @ replicate (length dest - pos) 0, pos = length dest))"

text \<open>
  The bytes that the leading pairs of hexadecimal digits of a string stand for,
  up to the first character that is not such a digit or has no partner.
\<close>

fun decoded_pairs :: "string \<Rightarrow> uint8 list" where
  "decoded_pairs (hi # lo # rest) =
     (case hexDigit hi of
        None \<Rightarrow> []
      | Some hiDigit \<Rightarrow>
          (case hexDigit lo of
             None \<Rightarrow> []
           | Some loDigit \<Rightarrow> (push_bit 4 hiDigit OR loDigit) # decoded_pairs rest))"
| "decoded_pairs [c] = []"
| "decoded_pairs [] = []"

section \<open>info_builder.cpp: to_uint32\<close>

definition to_uint32 :: "nat \<Rightarrow> failure + uint32" where
  "to_uint32 v =
     (let new_value = (word_of_nat v :: uint32)
      in if unat new_value \<noteq> v then Inl (logic_error ''Array size cannot fit in 32 bits'')
         else Inr new_value)"

section \<open>listxmltask.cpp: the result of a -listxml run\<close>

datatype status = SUCCESS | ABORTED | ERROR

record ListXmlResultEvent =
  ev_status :: status
  ev_errorMessage :: string

text \<open>
  \<^verbatim>\<open>internalProcess\<close> either returns normally (after \<^verbatim>\<open>emit_info\<close>) or throws a
  \<^verbatim>\<open>list_xml_exception\<close> carrying a status and a message.  Its inputs are what
  \<^verbatim>\<open>process_xml\<close> returned (\<^verbatim>\<open>success\<close>, \<^verbatim>\<open>error_message\<close>), the value of
  \<^verbatim>\<open>hasAborted()\<close> and whether the output file could be opened.
\<close>

datatype list_xml_exception = list_xml_exception status string

datatype emitted = Emitted

definition internalProcess ::
  "bool \<Rightarrow> string \<Rightarrow> bool \<Rightarrow> bool \<Rightarrow> string \<Rightarrow> list_xml_exception + emitted" where
  "internalProcess success error_message hasAborted file_opens outputFilename =
     (if hasAborted then Inl (list_xml_exception ABORTED [])
      else if \<not> success then
        Inl (list_xml_exception ERROR (''Error parsing XML from MAME -listxml: '' @ error_message))
      else if \<not> file_opens then
        Inl (list_xml_exception ERROR (''Could not open file: '' @ outputFilename))
      else Inr Emitted)"

definition listxml_process ::
  "bool \<Rightarrow> string \<Rightarrow> bool \<Rightarrow> bool \<Rightarrow> string \<Rightarrow> ListXmlResultEvent" where
  "listxml_process success error_message hasAborted file_opens outputFilename =
     (case internalProcess success error_message hasAborted file_opens outputFilename of
        Inr Emitted \<Rightarrow> \<lparr>ev_status = SUCCESS, ev_errorMessage = []\<rparr>
      | Inl (list_xml_exception st msg) \<Rightarrow> \<lparr>ev_status = st, ev_errorMessage = msg\<rparr>)"

section \<open>runmachinetask.cpp: the worker loop of a session\<close>

datatype emu_error =
  NONE | FAILEDVALIDITY | MISSINGFILES | FATALERROR | DEVICE | NOSUCHGAME
  | INVALIDCONFIG | IDENTNONROMS | IDENTPARTIAL | IDENTNONE | INVALID | KILLED

datatype response_type = Ok | Error

record response =
  m_type :: response_type
  m_text :: string

datatype message = COMMAND string | TERMINATED emu_error

text \<open>
  A local variable declared without an initialiser holds no value until it is
  assigned; reading it before that is undefined.
\<close>

datatype 'a local_var = Unassigned | Assigned 'a

record RunMachineCompletedEvent =
  m_success :: "bool local_var"
  m_errorMessage :: string

text \<open>
  The loop \<^verbatim>\<open>while (!done)\<close>: \<^verbatim>\<open>messages\<close> are what \<^verbatim>\<open>m_messageQueue.receive()\<close>
  delivers, in order, and \<^verbatim>\<open>responses\<close> what the child process answers to the
  commands.  When either runs dry the worker blocks for ever, which is \<open>None\<close>.
  The result is the status of the \<^verbatim>\<open>TERMINATED\<close> message that ended the loop.
\<close>

fun worker_loop :: "message list \<Rightarrow> response list \<Rightarrow> emu_error option" where
  "worker_loop [] responses = None"
| "worker_loop (TERMINATED st # messages) responses = Some st"
| "worker_loop (COMMAND c # messages) [] = None"
| "worker_loop (COMMAND c # messages) (r # responses) = worker_loop messages responses"

text \<open>
  The numeric values of the status codes (\<^verbatim>\<open>task.h\<close>) and their decimal
  rendering by \<^verbatim>\<open>QString::number\<close>.
\<close>

fun emu_error_code :: "emu_error \<Rightarrow> nat" where
  "emu_error_code NONE = 0"
| "emu_error_code FAILEDVALIDITY = 1"
| "emu_error_code MISSINGFILES = 2"
| "emu_error_code FATALERROR = 3"
| "emu_error_code DEVICE = 4"
| "emu_error_code NOSUCHGAME = 5"
| "emu_error_code INVALIDCONFIG = 6"
| "emu_error_code IDENTNONROMS = 7"
| "emu_error_code IDENTPARTIAL = 8"
| "emu_error_code IDENTNONE = 9"
| "emu_error_code INVALID = 1000"
| "emu_error_code KILLED = 1001"

function number :: "nat \<Rightarrow> string" where
  "number n =
     (if n < 10 then [''0123456789'' ! n]
      else number (n div 10) @ [''0123456789'' ! (n mod 10)])"
  by pat_completeness auto
termination
  by (relation "measure id") auto

text \<open>
  \<^verbatim>\<open>RunMachineTask::process\<close>.  \<^verbatim>\<open>inaugural\<close> is the first response of the child
  process, \<^verbatim>\<open>scraped\<close> the text of \<^verbatim>\<open>scrapeMameStartupError()\<close>,
  \<^verbatim>\<open>stderr_bytes\<close> the content of the standard error stream.  The event is
  posted with the value \<^verbatim>\<open>success\<close> holds at that point.
\<close>

definition run_process ::
  "response \<Rightarrow> string \<Rightarrow> message list \<Rightarrow> response list \<Rightarrow> string
     \<Rightarrow> RunMachineCompletedEvent option" where
  "run_process inaugural scraped messages responses stderr_bytes =
     (let success = (Unassigned :: bool local_var); errorMessage = ([] :: string) in
      if m_type inaugural \<noteq> Ok then
        (let success = Assigned False;
             errorMessage = (if m_text inaugural \<noteq> [] then m_text inaugural else scraped)
         in Some \<lparr>m_success = success, m_errorMessage = errorMessage\<rparr>)
      else
        (case worker_loop messages responses of
           None \<Rightarrow> None
         | Some st \<Rightarrow>
             (let errorMessage =
                    (if st \<noteq> NONE
                     then (if length stderr_bytes > 0 then stderr_bytes
                           else ''Error '' @ number (emu_error_code st) @ '' running MAME'')
                     else errorMessage)
              in Some \<lparr>m_success = success, m_errorMessage = errorMessage\<rparr>)))"

section \<open>info_builder.cpp: string_table\<close>

text \<open>
  The functions \<^verbatim>\<open>tryEncodeAsSmallString\<close> and \<^verbatim>\<open>tryDecodeAsSmallString\<close> and the
  two magic values belong to \<^verbatim>\<open>info.h\<close> and \<^verbatim>\<open>info.cpp\<close>, which are not among the
  sources.  The builder is modelled for every choice of them: they are the
  fields of a record that each modelled function takes as its first argument.
  The decoder returns the content of the \<^verbatim>\<open>std::array<char, 6>\<close>.
\<close>

record info_h =
  tryEncodeAsSmallString :: "string \<Rightarrow> uint32 option"
  tryDecodeAsSmallString :: "uint32 \<Rightarrow> char list option"
  MAGIC_STRINGTABLE_BEGIN :: "char list"
  MAGIC_STRINGTABLE_END :: "char list"

text \<open>
  The string table: the bytes \<^verbatim>\<open>m_data\<close> and the map \<^verbatim>\<open>m_map\<close> from a string to the
  position where it was stored.

  Modelled from the spec: \<^verbatim>\<open>embed_value\<close> is defined in \<^verbatim>\<open>info_builder.h\<close>, which is not
  among the sources; by the spec a magic value is embedded at the very start and
  at the very end of the table, so it appends the bytes of the value.
\<close>

record string_table =
  m_data :: "char list"
  m_map :: "string \<rightharpoonup> uint32"

definition embed_value :: "char list \<Rightarrow> string_table \<Rightarrow> string_table" where
  "embed_value bytes t = t\<lparr>m_data := m_data t @ bytes\<rparr>"

definition string_table_ctor :: "info_h \<Rightarrow> string_table" where
  "string_table_ctor h =
     embed_value (MAGIC_STRINGTABLE_BEGIN h) \<lparr>m_data = [], m_map = Map.empty\<rparr>"

definition string_table_get ::
  "info_h \<Rightarrow> string \<Rightarrow> string_table \<Rightarrow> failure + (uint32 \<times> string_table)" where
  "string_table_get h s t =
     (case tryEncodeAsSmallString h s of
        Some ssoResult \<Rightarrow> Inr (ssoResult, t)
      | None \<Rightarrow>
          (case m_map t s of
             Some cached \<Rightarrow> Inr (cached, t)
           | None \<Rightarrow>
               (case to_uint32 (length (m_data t)) of
                  Inl e \<Rightarrow> Inl e
                | Inr result \<Rightarrow>
                    Inr (result, t\<lparr>m_data := m_data t @ s @ [NUL],
                                   m_map := (m_map t)(s \<mapsto> result)\<rparr>))))"

text \<open>
  A \<^verbatim>\<open>const char *\<close> is read up to its first NUL byte.  \<^verbatim>\<open>lookup\<close> returns such
  a pointer, either into the small-string buffer or into \<^verbatim>\<open>m_data\<close>; the model
  returns the string it points to.  A small-string buffer without a NUL byte
  would be read past its end.
\<close>

definition c_str :: "char list \<Rightarrow> string" where
  "c_str bytes = takeWhile (\<lambda>ch. ch \<noteq> NUL) bytes"

definition strlen :: "char list \<Rightarrow> nat" where
  "strlen bytes = length (c_str bytes)"

definition string_table_lookup :: "info_h \<Rightarrow> string_table \<Rightarrow> uint32 \<Rightarrow> failure + string" where
  "string_table_lookup h t v =
     (case tryDecodeAsSmallString h v of
        Some sso \<Rightarrow>
          (if NUL \<in> set sso then Inr (c_str sso) else Inl (ReadPastEnd (length sso)))
      | None \<Rightarrow>
          (if \<not> unat v < length (m_data t) then Inl (assertion_failed ''value < m_data.size()'')
           else if \<not> unat v + strlen (drop (unat v) (m_data t)) < length (m_data t)
             then Inl (assertion_failed ''value + strlen(&m_data[value]) < m_data.size()'')
           else Inr (c_str (drop (unat v) (m_data t)))))"


text \<open>
  The invariant of the table: every entry of the map points at a complete,
  NUL-terminated copy of its key.  The tables the builder can produce are those
  reached from the constructor by \<^verbatim>\<open>get\<close> and \<^verbatim>\<open>embed_value\<close>.
\<close>

definition stored_at :: "string_table \<Rightarrow> string \<Rightarrow> uint32 \<Rightarrow> bool" where
  "stored_at t s r \<longleftrightarrow>
     unat r + length s < length (m_data t) \<and>
     take (length s + 1) (drop (unat r) (m_data t)) = s @ [NUL]"

definition string_table_inv :: "string_table \<Rightarrow> bool" where
  "string_table_inv t \<longleftrightarrow> (\<forall>s r. m_map t s = Some r \<longrightarrow> stored_at t s r)"

inductive reachable :: "info_h \<Rightarrow> string_table \<Rightarrow> bool" for h :: info_h where
  reachable_ctor: "reachable h (string_table_ctor h)"
| reachable_get: "reachable h t \<Longrightarrow> string_table_get h s t = Inr (r, t') \<Longrightarrow> reachable h t'"
| reachable_embed: "reachable h t \<Longrightarrow> reachable h (embed_value bytes t)"


text \<open>
  What the small-string functions have to satisfy for one string \<open>s\<close> whose
  reference is \<open>r\<close>: when \<open>s\<close> is encoded inline, decoding the code gives back
  \<open>s\<close> (NUL-terminated inside the buffer); when it is not, the stored position
  is not mistaken for an inline code.
\<close>

definition small_string_agrees :: "info_h \<Rightarrow> string \<Rightarrow> uint32 \<Rightarrow> bool" where
  "small_string_agrees h s r \<longleftrightarrow>
     (case tryEncodeAsSmallString h s of
        Some v \<Rightarrow> (case tryDecodeAsSmallString h v of
                     Some sso \<Rightarrow> NUL \<in> set sso \<and> c_str sso = s
                   | None \<Rightarrow> False)
      | None \<Rightarrow> tryDecodeAsSmallString h r = None)"


text \<open>
  An instance of the missing declarations for the examples: only the empty
  string is encoded inline, as the reference 0.
\<close>

definition example_h :: info_h where
  "example_h =
     \<lparr>tryEncodeAsSmallString = (\<lambda>s. if s = [] then Some 0 else None),
      tryDecodeAsSmallString = (\<lambda>v. if v = 0 then Some (replicate 6 NUL) else None),
      MAGIC_STRINGTABLE_BEGIN = ''STRB'',
      MAGIC_STRINGTABLE_END = ''STRE''\<rparr>"

section \<open>info_builder.cpp: the records of the database\<close>

text \<open>
  The twelve tables whose records belong to a machine, in the order in which the
  handler of the \<^verbatim>\<open>machine\<close> element takes their sizes.
\<close>

datatype child_kind =
  Biosset | Rom | Disk | Feature | Chip | Display | Sample | Configuration
  | Software_list | Ram_option | Device | Slot

definition all_kinds :: "child_kind list" where
  "all_kinds =
     [Biosset, Rom, Disk, Feature, Chip, Display, Sample, Configuration,
      Software_list, Ram_option, Device, Slot]"

text \<open>
  Modelled from the spec: the structs of \<^verbatim>\<open>info::binaries\<close> are declared in
  \<^verbatim>\<open>info.h\<close>, which is not among the sources.  By the spec a machine stores, for
  every child collection, a start index and a count into the corresponding flat
  table; string references and indices are 32 bits wide.  The twelve pairs of
  fields are the two functions \<open>m_index\<close> and \<open>m_count\<close>: \<open>m_index m Rom\<close> is
  \<^verbatim>\<open>m_roms_index\<close>, \<open>m_count m Rom\<close> is \<^verbatim>\<open>m_roms_count\<close>.  The fields that only hold
  decoded scalar attributes (\<^verbatim>\<open>m_runnable\<close>, \<^verbatim>\<open>m_quality_status\<close>, ...) are left out.
\<close>

record machine =
  m_name_strindex :: uint32
  m_sourcefile_strindex :: uint32
  m_clone_of_machindex :: uint32
  m_rom_of_machindex :: uint32
  m_description_strindex :: uint32
  m_year_strindex :: uint32
  m_manufacturer_strindex :: uint32
  m_index :: "child_kind \<Rightarrow> uint32"
  m_count :: "child_kind \<Rightarrow> uint32"

text \<open>
  One record type stands for the records of all other tables: the string
  references in the order in which the handler assigns them, the decoded
  non-string attributes as an opaque value, the start index and the count into
  a nested table (configurations, slots and settings have them), and the two
  references a device receives from its nested elements.
\<close>

record 'p child =
  c_strindexes :: "uint32 list"
  c_fields :: 'p
  c_index :: uint32
  c_count :: uint32
  c_instance_name_strindex :: uint32
  c_extensions_strindex :: uint32

record header =
  h_build_strindex :: uint32
  h_machines_count :: uint32
  h_children_count :: "child_kind \<Rightarrow> uint32"
  h_configuration_settings_count :: uint32
  h_configuration_conditions_count :: uint32
  h_slot_options_count :: uint32

record 'p builder =
  m_machines :: "machine list"
  m_children :: "child_kind \<Rightarrow> 'p child list"
  m_configuration_settings :: "'p child list"
  m_configuration_conditions :: "'p child list"
  m_slot_options :: "'p child list"
  m_strings :: string_table
  m_build_strindex :: uint32
  current_device_extensions :: string

section \<open>info_builder.cpp: the document\<close>

text \<open>
  The XML parser (\<^verbatim>\<open>xmlparser.h\<close>, not among the sources) calls the handlers
  registered for element paths.  The document is modelled as the tree of the
  elements that have a handler.  An element carries its attributes as a map
  from names to values (UTF-8 bytes) and, as an opaque value, what the typed
  getters and enum parsers of the parser return for its non-string attributes.
  \<^verbatim>\<open>configuration\<close> and \<^verbatim>\<open>dipswitch\<close> share their handlers, as do
  \<^verbatim>\<open>confsetting\<close> and \<^verbatim>\<open>dipvalue\<close>.  \<open>Other\<close> stands for the elements without a
  handler and for \<^verbatim>\<open>driver\<close> and \<^verbatim>\<open>sound\<close>, whose handlers assign only scalar
  fields.  \<open>d_error\<close> is the message of the parser when it stops with an error
  after the elements of the tree.
\<close>

type_synonym attributes = "string \<rightharpoonup> string"

record 'p element =
  e_attributes :: attributes
  e_fields :: 'p

datatype 'p nested =
    Confsetting "'p element" "'p element list"
  | Slotoption "'p element"
  | Instance "'p element"
  | Extension "'p element"

datatype 'p item =
    Description string
  | Year string
  | Manufacturer string
  | Child child_kind "'p element" "'p nested list"
  | Other string

record 'p machine_element =
  me_attributes :: attributes
  me_items :: "'p item list"

record 'p document =
  d_attributes :: attributes
  d_machines :: "'p machine_element list"
  d_error :: "string option"

section \<open>info_builder.cpp: the handlers of process_xml\<close>

definition then_do :: "failure + 'a \<Rightarrow> ('a \<Rightarrow> failure + 'b) \<Rightarrow> failure + 'b" where
  "then_do r f = (case r of Inl e \<Rightarrow> Inl e | Inr v \<Rightarrow> f v)"

fun run :: "('x \<Rightarrow> 's \<Rightarrow> failure + 's) \<Rightarrow> 'x list \<Rightarrow> 's \<Rightarrow> failure + 's" where
  "run f [] s = Inr s"
| "run f (x # xs) s = then_do (f x s) (run f xs)"

text \<open>\<^verbatim>\<open>util::last\<close> asserts that the container is not empty.\<close>

definition update_last :: "('a \<Rightarrow> 'a) \<Rightarrow> 'a list \<Rightarrow> failure + 'a list" where
  "update_last f xs =
     (if xs = [] then Inl (assertion_failed ''container.end() > container.begin()'')
      else Inr (butlast xs @ [f (last xs)]))"

text \<open>
  \<^verbatim>\<open>m_strings.get(attributes, name)\<close> interns the value of the attribute, or the
  empty string when the attribute is absent.
\<close>

definition attribute_text :: "attributes \<Rightarrow> string \<Rightarrow> string" where
  "attribute_text attrs name = (case attrs name of Some v \<Rightarrow> v | None \<Rightarrow> [])"

fun get_all :: "info_h \<Rightarrow> string list \<Rightarrow> string_table \<Rightarrow> failure + (uint32 list \<times> string_table)" where
  "get_all h [] t = Inr ([], t)"
| "get_all h (s # ss) t =
     then_do (string_table_get h s t) (\<lambda>(r, t').
     then_do (get_all h ss t') (\<lambda>(rs, t''). Inr (r # rs, t'')))"

fun to_uint32_sizes :: "(child_kind \<Rightarrow> nat) \<Rightarrow> child_kind list \<Rightarrow> failure + (child_kind \<Rightarrow> uint32)" where
  "to_uint32_sizes sz [] = Inr (\<lambda>k. 0)"
| "to_uint32_sizes sz (k # ks) =
     then_do (to_uint32 (sz k)) (\<lambda>v.
     then_do (to_uint32_sizes sz ks) (\<lambda>f. Inr (f(k := v))))"

definition mame_begin :: "info_h \<Rightarrow> attributes \<Rightarrow> 'p builder \<Rightarrow> failure + 'p builder" where
  "mame_begin h attrs b =
     then_do (string_table_get h (attribute_text attrs ''build'') (m_strings b)) (\<lambda>(r, t).
     Inr (b\<lparr>m_strings := t, m_build_strindex := r\<rparr>))"

definition machine_begin :: "info_h \<Rightarrow> attributes \<Rightarrow> 'p builder \<Rightarrow> failure + 'p builder" where
  "machine_begin h attrs b =
     then_do (string_table_get h (attribute_text attrs ''name'') (m_strings b)) (\<lambda>(name, t1).
     then_do (string_table_get h (attribute_text attrs ''sourcefile'') t1) (\<lambda>(sourcefile, t2).
     then_do (string_table_get h (attribute_text attrs ''cloneof'') t2) (\<lambda>(cloneof, t3).
     then_do (string_table_get h (attribute_text attrs ''romof'') t3) (\<lambda>(romof, t4).
     then_do (to_uint32_sizes (\<lambda>k. length (m_children b k)) all_kinds) (\<lambda>index.
     Inr (b\<lparr>m_machines := m_machines b @
              [\<lparr>m_name_strindex = name,
                m_sourcefile_strindex = sourcefile,
                m_clone_of_machindex = cloneof,
                m_rom_of_machindex = romof,
                m_description_strindex = 0,
                m_year_strindex = 0,
                m_manufacturer_strindex = 0,
                m_index = index,
                m_count = (\<lambda>k. 0)\<rparr>],
            m_strings := t4\<rparr>))))))"

text \<open>The string attributes each handler interns, in the order of the source.\<close>

fun string_attributes :: "child_kind \<Rightarrow> string list" where
  "string_attributes Biosset = [''name'', ''description'']"
| "string_attributes Rom = [''name'', ''bios'', ''merge'', ''region'']"
| "string_attributes Disk = [''name'', ''merge'', ''region'']"
| "string_attributes Feature = []"
| "string_attributes Chip = [''name'', ''tag'']"
| "string_attributes Display = [''tag'']"
| "string_attributes Sample = [''name'']"
| "string_attributes Configuration = [''name'', ''tag'']"
| "string_attributes Software_list = [''name'', ''filter'']"
| "string_attributes Ram_option = [''name'']"
| "string_attributes Device = [''type'', ''tag'', ''interface'']"
| "string_attributes Slot = [''name'']"

text \<open>
  The handlers of \<^verbatim>\<open>configuration\<close> and \<^verbatim>\<open>slot\<close> take the size of their nested
  table as start index.
\<close>

definition nested_index :: "child_kind \<Rightarrow> 'p builder \<Rightarrow> failure + uint32" where
  "nested_index k b =
     (if k = Configuration then to_uint32 (length (m_configuration_settings b))
      else if k = Slot then to_uint32 (length (m_slot_options b))
      else Inr 0)"

definition new_child :: "uint32 list \<Rightarrow> 'p \<Rightarrow> uint32 \<Rightarrow> 'p child" where
  "new_child refs decoded ix =
     \<lparr>c_strindexes = refs, c_fields = decoded, c_index = ix, c_count = 0,
      c_instance_name_strindex = 0, c_extensions_strindex = 0\<rparr>"

text \<open>
  The handler of a child element of a machine: append a record to the table of
  its kind, intern the string attributes, and increment the count of the last
  machine.  The other attributes, the checksums of roms and disks among them,
  reach the record as its decoded fields; the wrapper that decodes a checksum
  returns for every attribute value and does not touch the tables.
\<close>

definition child_begin :: "info_h \<Rightarrow> child_kind \<Rightarrow> 'p element \<Rightarrow> 'p builder \<Rightarrow> failure + 'p builder" where
  "child_begin h k e b =
     then_do (get_all h (map (attribute_text (e_attributes e)) (string_attributes k)) (m_strings b))
       (\<lambda>(refs, t).
     then_do (nested_index k b) (\<lambda>ix.
     then_do (update_last (\<lambda>m. m\<lparr>m_count := (m_count m)(k := m_count m k + 1)\<rparr>) (m_machines b))
       (\<lambda>machines.
     Inr (b\<lparr>m_machines := machines,
            m_children := (m_children b)(k := m_children b k @ [new_child refs (e_fields e) ix]),
            m_strings := t,
            current_device_extensions :=
              (if k = Device then [] else current_device_extensions b)\<rparr>))))"

definition confsetting_begin :: "info_h \<Rightarrow> 'p element \<Rightarrow> 'p builder \<Rightarrow> failure + 'p builder" where
  "confsetting_begin h e b =
     then_do (string_table_get h (attribute_text (e_attributes e) ''name'') (m_strings b)) (\<lambda>(r, t).
     then_do (to_uint32 (length (m_configuration_conditions b))) (\<lambda>ix.
     then_do (update_last (\<lambda>c. c\<lparr>c_count := c_count c + 1\<rparr>) (m_children b Configuration))
       (\<lambda>configurations.
     Inr (b\<lparr>m_children := (m_children b)(Configuration := configurations),
            m_configuration_settings :=
              m_configuration_settings b @ [new_child [r] (e_fields e) ix],
            m_strings := t\<rparr>))))"

definition condition_begin :: "info_h \<Rightarrow> 'p element \<Rightarrow> 'p builder \<Rightarrow> failure + 'p builder" where
  "condition_begin h e b =
     then_do (string_table_get h (attribute_text (e_attributes e) ''tag'') (m_strings b)) (\<lambda>(r, t).
     Inr (b\<lparr>m_configuration_conditions :=
              m_configuration_conditions b @ [new_child [r] (e_fields e) 0],
            m_strings := t\<rparr>))"

definition slotoption_begin :: "info_h \<Rightarrow> 'p element \<Rightarrow> 'p builder \<Rightarrow> failure + 'p builder" where
  "slotoption_begin h e b =
     then_do (get_all h (map (attribute_text (e_attributes e)) [''name'', ''devname'']) (m_strings b))
       (\<lambda>(refs, t).
     then_do (update_last (\<lambda>c. c\<lparr>c_count := c_count c + 1\<rparr>) (m_children b Slot)) (\<lambda>slots.
     Inr (b\<lparr>m_children := (m_children b)(Slot := slots),
            m_slot_options := m_slot_options b @ [new_child refs (e_fields e) 0],
            m_strings := t\<rparr>)))"

definition instance_begin :: "info_h \<Rightarrow> 'p element \<Rightarrow> 'p builder \<Rightarrow> failure + 'p builder" where
  "instance_begin h e b =
     then_do (string_table_get h (attribute_text (e_attributes e) ''name'') (m_strings b)) (\<lambda>(r, t).
     then_do (update_last (\<lambda>d. d\<lparr>c_instance_name_strindex := r\<rparr>) (m_children b Device))
       (\<lambda>devices.
     Inr (b\<lparr>m_children := (m_children b)(Device := devices), m_strings := t\<rparr>)))"

definition extension_begin :: "'p element \<Rightarrow> 'p builder \<Rightarrow> failure + 'p builder" where
  "extension_begin e b =
     (case e_attributes e ''name'' of
        Some name \<Rightarrow>
          Inr (b\<lparr>current_device_extensions := current_device_extensions b @ name @ '',''\<rparr>)
      | None \<Rightarrow> Inr b)"

definition device_end :: "info_h \<Rightarrow> 'p builder \<Rightarrow> failure + 'p builder" where
  "device_end h b =
     (if current_device_extensions b \<noteq> [] then
        then_do (string_table_get h (current_device_extensions b) (m_strings b)) (\<lambda>(r, t).
        then_do (update_last (\<lambda>d. d\<lparr>c_extensions_strindex := r\<rparr>) (m_children b Device))
          (\<lambda>devices.
        Inr (b\<lparr>m_children := (m_children b)(Device := devices), m_strings := t\<rparr>)))
      else Inr b)"

text \<open>
  The elements nested in a child of a machine.  A handler is registered for a
  path, so a nested element has an effect only below the kind it belongs to.
\<close>

definition nested_element :: "info_h \<Rightarrow> child_kind \<Rightarrow> 'p nested \<Rightarrow> 'p builder \<Rightarrow> failure + 'p builder" where
  "nested_element h k n b =
     (case n of
        Confsetting e conditions \<Rightarrow>
          (if k = Configuration
           then then_do (confsetting_begin h e b) (run (condition_begin h) conditions)
           else Inr b)
      | Slotoption e \<Rightarrow> (if k = Slot then slotoption_begin h e b else Inr b)
      | Instance e \<Rightarrow> (if k = Device then instance_begin h e b else Inr b)
      | Extension e \<Rightarrow> (if k = Device then extension_begin e b else Inr b))"

definition child_element ::
  "info_h \<Rightarrow> child_kind \<Rightarrow> 'p element \<Rightarrow> 'p nested list \<Rightarrow> 'p builder \<Rightarrow> failure + 'p builder" where
  "child_element h k e ns b =
     then_do (child_begin h k e b) (\<lambda>b1.
     then_do (run (nested_element h k) ns b1) (\<lambda>b2.
     if k = Device then device_end h b2 else Inr b2))"

definition text_end ::
  "info_h \<Rightarrow> (uint32 \<Rightarrow> machine \<Rightarrow> machine) \<Rightarrow> string \<Rightarrow> 'p builder \<Rightarrow> failure + 'p builder" where
  "text_end h assign content b =
     then_do (string_table_get h content (m_strings b)) (\<lambda>(r, t).
     then_do (update_last (assign r) (m_machines b)) (\<lambda>machines.
     Inr (b\<lparr>m_machines := machines, m_strings := t\<rparr>)))"

definition item_element :: "info_h \<Rightarrow> 'p item \<Rightarrow> 'p builder \<Rightarrow> failure + 'p builder" where
  "item_element h i b =
     (case i of
        Description content \<Rightarrow> text_end h (\<lambda>r m. m\<lparr>m_description_strindex := r\<rparr>) content b
      | Year content \<Rightarrow> text_end h (\<lambda>r m. m\<lparr>m_year_strindex := r\<rparr>) content b
      | Manufacturer content \<Rightarrow> text_end h (\<lambda>r m. m\<lparr>m_manufacturer_strindex := r\<rparr>) content b
      | Child k e ns \<Rightarrow> child_element h k e ns b
      | Other name \<Rightarrow> Inr b)"

definition machine_element :: "info_h \<Rightarrow> 'p machine_element \<Rightarrow> 'p builder \<Rightarrow> failure + 'p builder" where
  "machine_element h me b =
     then_do (machine_begin h (me_attributes me) b) (run (item_element h) (me_items me))"

definition builder_ctor :: "info_h \<Rightarrow> 'p builder" where
  "builder_ctor h =
     \<lparr>m_machines = [], m_children = (\<lambda>k. []), m_configuration_settings = [],
      m_configuration_conditions = [], m_slot_options = [],
      m_strings = string_table_ctor h, m_build_strindex = 0,
      current_device_extensions = []\<rparr>"

text \<open>\<^verbatim>\<open>xml.parse(input)\<close> on a fresh builder: the handlers in document order.\<close>

definition xml_parse :: "info_h \<Rightarrow> 'p document \<Rightarrow> failure + 'p builder" where
  "xml_parse h doc =
     then_do (mame_begin h (d_attributes doc) (builder_ctor h))
       (run (machine_element h) (d_machines doc))"

section \<open>info_builder.cpp: finishing the database\<close>

text \<open>
  The counts of the header: \<^verbatim>\<open>to_uint32\<close> of the size of every table.  The calls
  are outside the \<^verbatim>\<open>try\<close> block of \<^verbatim>\<open>process_xml\<close>.
\<close>

definition header_counts :: "'p builder \<Rightarrow> failure + header" where
  "header_counts b =
     then_do (to_uint32 (length (m_machines b))) (\<lambda>machines_count.
     then_do (to_uint32_sizes (\<lambda>k. length (m_children b k)) all_kinds) (\<lambda>children_count.
     then_do (to_uint32 (length (m_slot_options b))) (\<lambda>slot_options_count.
     then_do (to_uint32 (length (m_configuration_settings b))) (\<lambda>configuration_settings_count.
     then_do (to_uint32 (length (m_configuration_conditions b))) (\<lambda>configuration_conditions_count.
     Inr \<lparr>h_build_strindex = m_build_strindex b,
          h_machines_count = machines_count,
          h_children_count = children_count,
          h_configuration_settings_count = configuration_settings_count,
          h_configuration_conditions_count = configuration_conditions_count,
          h_slot_options_count = slot_options_count\<rparr>)))))"

text \<open>
  \<^verbatim>\<open>strcmp\<close> on two C strings: the difference of the first two bytes that differ,
  read as unsigned, with the end of a string counting as the byte 0.
\<close>

fun strcmp :: "string \<Rightarrow> string \<Rightarrow> int" where
  "strcmp [] [] = 0"
| "strcmp [] (b # bs) = - int (of_char b)"
| "strcmp (a # as) [] = int (of_char a)"
| "strcmp (a # as) (b # bs) =
     (if a = b then strcmp as bs else int (of_char a) - int (of_char b))"

text \<open>
  The comparator handed to \<^verbatim>\<open>std::sort\<close>: it looks both names up and compares them
  with \<^verbatim>\<open>strcmp\<close>.  A lookup that fails makes the comparison fail.
\<close>

definition name_less :: "info_h \<Rightarrow> string_table \<Rightarrow> machine \<Rightarrow> machine \<Rightarrow> failure + bool" where
  "name_less h t a b =
     then_do (string_table_lookup h t (m_name_strindex a)) (\<lambda>aText.
     then_do (string_table_lookup h t (m_name_strindex b)) (\<lambda>bText.
     Inr (strcmp aText bText < 0)))"

text \<open>
  \<^verbatim>\<open>std::sort\<close> with that comparator.  The standard fixes neither the algorithm nor
  the order in which elements that compare equal are left.  The model is an
  insertion sort: the elements are taken one after the other, and each is
  placed in front of the first element already placed that it is less than.  So
  that no arrangement of equal elements is excluded, the machines are taken in
  the order that an argument gives: \<open>order ! i\<close> is the position in the table of
  the machine taken as number \<open>i\<close>; a table that is sorted already is left as it
  is.  A comparison that fails ends the sort.
\<close>

fun insert_by :: "('a \<Rightarrow> 'a \<Rightarrow> failure + bool) \<Rightarrow> 'a \<Rightarrow> 'a list \<Rightarrow> failure + 'a list" where
  "insert_by cmp x [] = Inr [x]"
| "insert_by cmp x (y # ys) =
     then_do (cmp x y) (\<lambda>lt.
     if lt then Inr (x # y # ys)
     else then_do (insert_by cmp x ys) (\<lambda>zs. Inr (y # zs)))"

fun sort_by :: "('a \<Rightarrow> 'a \<Rightarrow> failure + bool) \<Rightarrow> 'a list \<Rightarrow> 'a list \<Rightarrow> failure + 'a list" where
  "sort_by cmp placed [] = Inr placed"
| "sort_by cmp placed (x # xs) =
     then_do (insert_by cmp x placed) (\<lambda>placed'. sort_by cmp placed' xs)"

definition std_sort :: "info_h \<Rightarrow> string_table \<Rightarrow> nat list \<Rightarrow> machine list \<Rightarrow> failure + machine list" where
  "std_sort h t order ms = sort_by (name_less h t) [] (map (\<lambda>i. ms ! i) order)"

text \<open>
  The machine index map: \<^verbatim>\<open>emplace\<close> inserts only when the key is absent.  The
  first entry maps the reference of the empty string to \<^verbatim>\<open>~0\<close>.
\<close>

definition emplace :: "('k \<rightharpoonup> 'v) \<Rightarrow> 'k \<Rightarrow> 'v \<Rightarrow> ('k \<rightharpoonup> 'v)" where
  "emplace m k v = (if m k = None then m(k \<mapsto> v) else m)"

fun emplace_machines :: "(uint32 \<rightharpoonup> uint32) \<Rightarrow> nat \<Rightarrow> machine list \<Rightarrow> (uint32 \<rightharpoonup> uint32)" where
  "emplace_machines m i [] = m"
| "emplace_machines m i (x # xs) =
     emplace_machines (emplace m (m_name_strindex x) (word_of_nat i)) (Suc i) xs"

definition machineIndexFromStringIndex :: "(uint32 \<rightharpoonup> uint32) \<Rightarrow> uint32 \<Rightarrow> uint32" where
  "machineIndexFromStringIndex machineIndexMap stringIndex =
     (case machineIndexMap stringIndex of Some second \<Rightarrow> second | None \<Rightarrow> NOT 0)"

definition fix_up :: "(uint32 \<rightharpoonup> uint32) \<Rightarrow> machine \<Rightarrow> machine" where
  "fix_up machineIndexMap m =
     m\<lparr>m_clone_of_machindex := machineIndexFromStringIndex machineIndexMap (m_clone_of_machindex m),
       m_rom_of_machindex := machineIndexFromStringIndex machineIndexMap (m_rom_of_machindex m)\<rparr>"

text \<open>
  What follows the parse: the final magic value, the header, the sort, the
  index map and the rewriting of \<^verbatim>\<open>clone_of\<close> and \<^verbatim>\<open>rom_of\<close>.  Salting the header
  works on the bytes of the struct and is modelled by \<open>salt\<close> above.
\<close>

definition finish :: "info_h \<Rightarrow> nat list \<Rightarrow> 'p builder \<Rightarrow> failure + (header \<times> 'p builder)" where
  "finish h order b0 =
     (let b = b0\<lparr>m_strings := embed_value (MAGIC_STRINGTABLE_END h) (m_strings b0)\<rparr> in
      then_do (header_counts b) (\<lambda>hdr.
      then_do (std_sort h (m_strings b) order (m_machines b)) (\<lambda>sorted.
      then_do (string_table_get h [] (m_strings b)) (\<lambda>(empty, t).
      let machineIndexMap = emplace_machines (emplace Map.empty empty (NOT 0)) 0 sorted in
      Inr (hdr, b\<lparr>m_machines := map (fix_up machineIndexMap) sorted, m_strings := t\<rparr>)))))"

text \<open>
  The outcomes of \<^verbatim>\<open>process_xml\<close>: it returns true, leaving the builder ready for
  \<^verbatim>\<open>emit_info\<close>; it returns false with an error message; or a failure leaves it
  that no handler of its own catches.  An exception thrown during the parse is
  caught and turned into the message \<^verbatim>\<open>ex.what()\<close>.
\<close>

datatype 'p outcome =
    Success header "'p builder"
  | Failure string
  | Uncaught failure

definition process_xml :: "info_h \<Rightarrow> 'p document \<Rightarrow> nat list \<Rightarrow> 'p outcome" where
  "process_xml h doc order =
     (case xml_parse h doc of
        Inl (logic_error msg) \<Rightarrow> Failure msg
      | Inl e \<Rightarrow> Uncaught e
      | Inr b \<Rightarrow>
          (case d_error doc of
             Some msg \<Rightarrow> Failure msg
           | None \<Rightarrow>
               (case finish h order b of
                  Inl e \<Rightarrow> Uncaught e
                | Inr (hdr, b') \<Rightarrow> Success hdr b')))"

section \<open>Notions used in the statements\<close>

text \<open>
  The index and count fields of the machines and the decoded fields of the
  records of the child tables: what the claims about child ranges speak of.
\<close>

definition layout ::
  "'p builder \<Rightarrow> ((child_kind \<Rightarrow> uint32) \<times> (child_kind \<Rightarrow> uint32)) list \<times> (child_kind \<Rightarrow> 'p list)" where
  "layout b =
     (map (\<lambda>m. (m_index m, m_count m)) (m_machines b), \<lambda>k. map c_fields (m_children b k))"

text \<open>
  The children of one kind that a machine element contains, and those that a
  list of machine elements contains, in document order, each given by its
  decoded fields.
\<close>

definition item_child :: "child_kind \<Rightarrow> 'p item \<Rightarrow> 'p list" where
  "item_child k i =
     (case i of Child k' e ns \<Rightarrow> (if k' = k then [e_fields e] else []) | _ \<Rightarrow> [])"

definition items_children :: "child_kind \<Rightarrow> 'p item list \<Rightarrow> 'p list" where
  "items_children k items = concat (map (item_child k) items)"

definition children_of :: "child_kind \<Rightarrow> 'p machine_element \<Rightarrow> 'p list" where
  "children_of k me = items_children k (me_items me)"

definition children_in :: "child_kind \<Rightarrow> 'p machine_element list \<Rightarrow> 'p list" where
  "children_in k mes = concat (map (children_of k) mes)"


text \<open>
  The records of a child table that the index and count fields of a machine
  delimit.
\<close>

definition child_range :: "'p builder \<Rightarrow> machine \<Rightarrow> child_kind \<Rightarrow> 'p child list" where
  "child_range db m k = take (unat (m_count m k)) (drop (unat (m_index m k)) (m_children db k))"


text \<open>
  The name of a machine record as the string table returns it; two records are
  in order when both names can be read and the first is not greater by
  \<^verbatim>\<open>strcmp\<close>.  \<open>sorted_positions\<close> gives, for each record of the sorted table, the
  position in the document of the machine element it was built from: it is the
  sort of the machines, carried out on their positions.
\<close>

definition machine_name :: "info_h \<Rightarrow> string_table \<Rightarrow> machine \<Rightarrow> failure + string" where
  "machine_name h t m = string_table_lookup h t (m_name_strindex m)"

definition in_order :: "info_h \<Rightarrow> string_table \<Rightarrow> machine \<Rightarrow> machine \<Rightarrow> bool" where
  "in_order h t a b =
     (case machine_name h t a of
        Inl e \<Rightarrow> False
      | Inr aText \<Rightarrow>
          (case machine_name h t b of
             Inl e \<Rightarrow> False
           | Inr bText \<Rightarrow> strcmp aText bText \<le> 0))"

definition sorted_positions :: "info_h \<Rightarrow> 'p document \<Rightarrow> nat list \<Rightarrow> nat list" where
  "sorted_positions h doc order =
     (case xml_parse h doc of
        Inl e \<Rightarrow> []
      | Inr b \<Rightarrow>
          (case sort_by
                  (\<lambda>i j. name_less h (embed_value (MAGIC_STRINGTABLE_END h) (m_strings b))
                            (m_machines b ! i) (m_machines b ! j))
                  [] order of
             Inl e \<Rightarrow> []
           | Inr positions \<Rightarrow> positions))"


text \<open>
  The scenario of the spec: two machines, \<^verbatim>\<open>bbb\<close> (a clone of \<^verbatim>\<open>aaa\<close>) and
  \<^verbatim>\<open>aaa\<close>, each with one rom.
\<close>

definition example_doc :: "nat document" where
  "example_doc =
     \<lparr>d_attributes = [''build'' \<mapsto> ''0.229''],
      d_machines =
        [\<lparr>me_attributes = [''name'' \<mapsto> ''bbb'', ''cloneof'' \<mapsto> ''aaa''],
          me_items = [Child Rom \<lparr>e_attributes = [''name'' \<mapsto> ''b.rom''], e_fields = 1\<rparr> []]\<rparr>,
         \<lparr>me_attributes = [''name'' \<mapsto> ''aaa''],
          me_items = [Child Rom \<lparr>e_attributes = [''name'' \<mapsto> ''a.rom''], e_fields = 2\<rparr> []]\<rparr>],
      d_error = None\<rparr>"


text \<open>The only exception the builder throws.\<close>

definition too_large :: failure where
  "too_large = logic_error ''Array size cannot fit in 32 bits''"


text \<open>
  A document whose first machine has \<open>2 ^ 32\<close> roms, followed by a second
  machine; and a document whose only rom carries a \<^verbatim>\<open>size\<close> attribute one above
  the largest 32-bit value, with whatever the typed getter of the parser makes
  of it as decoded fields.
\<close>

definition crowded_doc :: "nat document" where
  "crowded_doc =
     \<lparr>d_attributes = Map.empty,
      d_machines =
        [\<lparr>me_attributes = [''name'' \<mapsto> ''first''],
          me_items = replicate (2 ^ 32) (Child Rom \<lparr>e_attributes = Map.empty, e_fields = 0\<rparr> [])\<rparr>,
         \<lparr>me_attributes = [''name'' \<mapsto> ''second''], me_items = []\<rparr>],
      d_error = None\<rparr>"

definition oversized_rom_doc :: "'p \<Rightarrow> 'p document" where
  "oversized_rom_doc decoded =
     \<lparr>d_attributes = Map.empty,
      d_machines =
        [\<lparr>me_attributes = [''name'' \<mapsto> ''aaa''],
          me_items =
            [Child Rom
               \<lparr>e_attributes = [''name'' \<mapsto> ''a.rom'', ''size'' \<mapsto> ''4294967296''],
                e_fields = decoded\<rparr> []]\<rparr>],
      d_error = None\<rparr>"


section \<open>Looking a machine up by name\<close>

text \<open>
  Modelled from the spec: the loader (\<^verbatim>\<open>info.cpp\<close>) is not among the sources.  By
  the spec it exposes the machine table as a name-keyed view using binary search,
  relying on the build-time sort; a lookup returns the record whose name matches
  exactly, or reports that there is none.  The search below finds the first
  position whose name is not less than the target and accepts it only when the
  name there equals the target.
\<close>

function lower_bound :: "string list \<Rightarrow> string \<Rightarrow> nat \<Rightarrow> nat \<Rightarrow> nat" where
  "lower_bound names target lo hi =
     (if lo < hi then
        (let mid = lo + (hi - lo) div 2 in
         if strcmp (names ! mid) target < 0
         then lower_bound names target (mid + 1) hi
         else lower_bound names target lo mid)
      else lo)"
  by pat_completeness auto
termination
  by (relation "measure (\<lambda>(names, target, lo, hi). hi - lo)") auto

declare lower_bound.simps [simp del]

text \<open>
  Modelled from the spec: the view reads the name of each record with
  \<^verbatim>\<open>lookup\<close>, which by the spec fails for a reference that cannot be read; such
  a name makes the search fail.
\<close>

fun collect :: "(failure + 'a) list \<Rightarrow> failure + 'a list" where
  "collect [] = Inr []"
| "collect (r # rs) = then_do r (\<lambda>v. then_do (collect rs) (\<lambda>vs. Inr (v # vs)))"

definition find_machine :: "info_h \<Rightarrow> 'p builder \<Rightarrow> string \<Rightarrow> failure + machine option" where
  "find_machine h db target =
     then_do (collect (map (machine_name h (m_strings db)) (m_machines db))) (\<lambda>names.
     let i = lower_bound names target 0 (length names)
     in Inr (if i < length names \<and> strcmp (names ! i) target = 0
             then Some (m_machines db ! i) else None))"


section \<open>Names and references of machines\<close>

text \<open>
  The string table only grows: tables obtained from a table by interning strings
  and embedding values.
\<close>

inductive grows :: "info_h \<Rightarrow> string_table \<Rightarrow> string_table \<Rightarrow> bool" for h :: info_h where
  grows_refl: "grows h t t"
| grows_get: "grows h t t' \<Longrightarrow> string_table_get h s t' = Inr (r, t'') \<Longrightarrow> grows h t t''"
| grows_embed: "grows h t t' \<Longrightarrow> grows h t (embed_value bytes t')"

text \<open>
  The reference \<^verbatim>\<open>get\<close> gives out for a string in a table: its inline encoding if
  it has one, the offset recorded in \<^verbatim>\<open>m_map\<close> otherwise.
\<close>

definition interned :: "info_h \<Rightarrow> string_table \<Rightarrow> string \<Rightarrow> uint32 \<Rightarrow> bool" where
  "interned h t s r \<longleftrightarrow>
     tryEncodeAsSmallString h s = Some r \<or>
     tryEncodeAsSmallString h s = None \<and> m_map t s = Some r"

text \<open>
  What is needed of a string for its reference to be read back: it has no NUL
  byte, and the small-string encoder and decoder (\<^verbatim>\<open>info.cpp\<close>, not among the
  sources) round-trip on it and do not take its offset for a small string.
\<close>

definition faithful :: "info_h \<Rightarrow> string_table \<Rightarrow> string \<Rightarrow> bool" where
  "faithful h t s \<longleftrightarrow>
     NUL \<notin> set s \<and>
     (case tryEncodeAsSmallString h s of
        Some v \<Rightarrow> (case tryDecodeAsSmallString h v of
                     Some sso \<Rightarrow> NUL \<in> set sso \<and> c_str sso = s
                   | None \<Rightarrow> False)
      | None \<Rightarrow> (case m_map t s of
                   Some r \<Rightarrow> tryDecodeAsSmallString h r = None
                 | None \<Rightarrow> True))"

text \<open>
  The name, \<^verbatim>\<open>cloneof\<close> and \<^verbatim>\<open>romof\<close> references of the machines, in table order;
  all handlers but the one that begins a machine leave them as they are.
\<close>

definition name_refs :: "'p builder \<Rightarrow> (uint32 \<times> uint32 \<times> uint32) list" where
  "name_refs b =
     map (\<lambda>m. (m_name_strindex m, m_clone_of_machindex m, m_rom_of_machindex m)) (m_machines b)"

definition keeps :: "info_h \<Rightarrow> 'p builder \<Rightarrow> 'p builder \<Rightarrow> bool" where
  "keeps h b b' \<longleftrightarrow> name_refs b' = name_refs b \<and> grows h (m_strings b) (m_strings b')"

text \<open>
  The three references of a machine record are those of the attributes of its
  element.
\<close>

definition named :: "info_h \<Rightarrow> string_table \<Rightarrow> attributes \<Rightarrow> uint32 \<times> uint32 \<times> uint32 \<Rightarrow> bool" where
  "named h t attrs refs \<longleftrightarrow>
     interned h t (attribute_text attrs ''name'') (fst refs) \<and>
     interned h t (attribute_text attrs ''cloneof'') (fst (snd refs)) \<and>
     interned h t (attribute_text attrs ''romof'') (snd (snd refs))"

text \<open>
  The position of the first machine with a given name reference:
  \<^verbatim>\<open>machineIndexMap.emplace\<close> keeps the first entry of a key.
\<close>

fun first_index :: "uint32 \<Rightarrow> machine list \<Rightarrow> nat option" where
  "first_index r [] = None"
| "first_index r (m # ms) =
     (if m_name_strindex m = r then Some 0 else map_option Suc (first_index r ms))"

text \<open>
  The text of an attribute of a machine element (empty when absent), the strings
  a document refers to machines by, and what it means for a \<^verbatim>\<open>cloneof\<close> or
  \<^verbatim>\<open>romof\<close> value \<open>v\<close> to be resolved to the index \<open>c\<close>: if \<open>v\<close> is not empty and
  some machine is called \<open>v\<close>, then \<open>c\<close> is the first position of the final table
  with a machine called \<open>v\<close>, and the name read back there is \<open>v\<close>; otherwise \<open>c\<close>
  is the all-bits-set sentinel.  Position \<open>i\<close> of the final table holds the machine
  declared at position \<open>positions ! i\<close>.
\<close>

definition attribute :: "'p machine_element \<Rightarrow> string \<Rightarrow> string" where
  "attribute me name = attribute_text (me_attributes me) name"

definition referenced_strings :: "'p document \<Rightarrow> string set" where
  "referenced_strings doc =
     insert [] (\<Union>me \<in> set (d_machines doc).
       {attribute me ''name'', attribute me ''cloneof'', attribute me ''romof''})"

definition resolved :: "info_h \<Rightarrow> 'p document \<Rightarrow> nat list \<Rightarrow> 'p builder \<Rightarrow> string \<Rightarrow> uint32 \<Rightarrow> bool" where
  "resolved h doc positions db v c \<longleftrightarrow>
     (if v \<noteq> [] \<and> v \<in> (\<lambda>me. attribute me ''name'') ` set (d_machines doc)
      then unat c < length (d_machines doc) \<and>
           attribute (d_machines doc ! (positions ! unat c)) ''name'' = v \<and>
           (\<forall>j < unat c. attribute (d_machines doc ! (positions ! j)) ''name'' \<noteq> v) \<and>
           machine_name h (m_strings db) (m_machines db ! unat c) = Inr v
      else c = NOT 0)"

text \<open>
  Two documents: one in which two machines share the name \<^verbatim>\<open>dup\<close>, a third,
  \<^verbatim>\<open>ccc\<close>, is a clone of \<^verbatim>\<open>dup\<close>, and the second \<^verbatim>\<open>dup\<close> takes its roms from
  \<^verbatim>\<open>ccc\<close>; and one with a machine whose name is empty and a machine whose
  \<^verbatim>\<open>cloneof\<close> attribute is present and empty.
\<close>

definition twins_doc :: "nat document" where
  "twins_doc =
     \<lparr>d_attributes = Map.empty,
      d_machines =
        [\<lparr>me_attributes = [''name'' \<mapsto> ''dup''], me_items = []\<rparr>,
         \<lparr>me_attributes = [''name'' \<mapsto> ''ccc'', ''cloneof'' \<mapsto> ''dup''], me_items = []\<rparr>,
         \<lparr>me_attributes = [''name'' \<mapsto> ''dup'', ''romof'' \<mapsto> ''ccc''], me_items = []\<rparr>],
      d_error = None\<rparr>"

definition unnamed_doc :: "nat document" where
  "unnamed_doc =
     \<lparr>d_attributes = Map.empty,
      d_machines =
        [\<lparr>me_attributes = [''name'' \<mapsto> ''''], me_items = []\<rparr>,
         \<lparr>me_attributes = [''name'' \<mapsto> ''bbb'', ''cloneof'' \<mapsto> ''''], me_items = []\<rparr>],
      d_error = None\<rparr>"


section \<open>Salting the header\<close>

lemma salt_Some:
  "s \<noteq> [] \<Longrightarrow>
   salt h s = Some (map (\<lambda>i. (h ! i) XOR (s ! (i mod length s))) [0 ..< length h])"
  by (simp add: salt_def)

lemma xor_twice: "(a XOR k) XOR k = (a :: uint8)"
  by (simp add: xor.assoc)

text \<open>
  C6.  Header salting is an involution: salting a header with a salt value and
  salting the result again with the same salt value gives back the header, for
  every header content and every (non-empty) salt.
\<close>

theorem salt_involution:
  assumes "s \<noteq> []"
  shows "Option.bind (salt h s) (\<lambda>h'. salt h' s) = Some h"
proof -
  let ?k = "\<lambda>i. s ! (i mod length s)"
  let ?h' = "map (\<lambda>i. (h ! i) XOR ?k i) [0 ..< length h]"
  have "salt ?h' s = Some (map (\<lambda>i. (?h' ! i) XOR ?k i) [0 ..< length ?h'])"
    by (rule salt_Some [OF assms])
  also have "map (\<lambda>i. (?h' ! i) XOR ?k i) [0 ..< length ?h'] = map (\<lambda>i. h ! i) [0 ..< length h]"
    by (simp add: xor_twice cong: map_cong)
  also have "\<dots> = h"
    by (rule map_nth)
  finally show ?thesis
    by (simp add: salt_Some [OF assms])
qed

theorem salt_involution_witness:
  "[0x5A, 0xA5 :: uint8] \<noteq> [] \<and>
   Option.bind (salt [1, 2, 3] [0x5A, 0xA5]) (\<lambda>h'. salt h' [0x5A, 0xA5]) = Some [1, 2, 3 :: uint8]"
  using salt_involution [of "[0x5A, 0xA5]" "[1, 2, 3]"] by simp

section \<open>Decoding hexadecimal attributes\<close>

text \<open>
  C9.  The claim is that \<^verbatim>\<open>util::binaryFromHex\<close> reads only positions below
  \<^verbatim>\<open>hex.size()\<close>.  With a destination of two bytes and the two-character
  string \<^verbatim>\<open>"ab"\<close> the loop condition \<^verbatim>\<open>pos < hex.size() * 2\<close> still holds
  at \<^verbatim>\<open>pos = 1\<close>, and the decoder reads \<^verbatim>\<open>hex[2]\<close>, one past the end.
\<close>

theorem binaryFromHex_reads_past_end:
  "binaryFromHex [0, 0] ''ab'' = Inl (ReadPastEnd 2)"
  by (simp add: binaryFromHex_def binaryFromHex_from.simps hexDigit_def char_at_def)

text \<open>
  The same string read through its memory: the results agree wherever the view
  is not left.
\<close>

lemma stored_char_at_char_at: "char_at s i = Inr c \<Longrightarrow> stored_char_at s i = Inr c"
  by (auto simp: char_at_def stored_char_at_def split: if_splits)

lemma binaryFromHex_stored_from_agrees:
  "binaryFromHex_from pos dest s = Inr r \<Longrightarrow> binaryFromHex_stored_from pos dest s = Inr r"
proof (induction pos dest s rule: binaryFromHex_from.induct)
  case (1 pos dest hex)
  show ?case
  proof (cases "pos < length dest \<and> pos < length hex * 2")
    case False
    with "1.prems" show ?thesis
      by (subst binaryFromHex_stored_from.simps, subst (asm) binaryFromHex_from.simps) auto
  next
    case True
    from "1.prems" True obtain hi where hi: "char_at hex (pos * 2 + 0) = Inr hi"
      by (subst (asm) binaryFromHex_from.simps) (auto split: sum.splits)
    show ?thesis
    proof (cases "hexDigit hi")
      case None
      with "1.prems" True hi stored_char_at_char_at [OF hi] show ?thesis
        by (subst binaryFromHex_stored_from.simps, subst (asm) binaryFromHex_from.simps) simp
    next
      case (Some hiDigit)
      from "1.prems" True hi Some obtain lo where lo: "char_at hex (pos * 2 + 1) = Inr lo"
        by (subst (asm) binaryFromHex_from.simps) (auto split: sum.splits)
      show ?thesis
      proof (cases "hexDigit lo")
        case None
        with "1.prems" True hi Some lo stored_char_at_char_at [OF hi] stored_char_at_char_at [OF lo]
        show ?thesis
          by (subst binaryFromHex_stored_from.simps, subst (asm) binaryFromHex_from.simps) simp
      next
        case lod: (Some loDigit)
        from "1.prems" True hi Some lo lod
        have "binaryFromHex_from (pos + 1) (dest[pos := push_bit 4 hiDigit OR loDigit]) hex = Inr r"
          by (subst (asm) binaryFromHex_from.simps) simp
        then have "binaryFromHex_stored_from (pos + 1) (dest[pos := push_bit 4 hiDigit OR loDigit]) hex = Inr r"
          by (rule "1.IH" [OF True hi Some lo lod])
        with True Some lod stored_char_at_char_at [OF hi] stored_char_at_char_at [OF lo]
        show ?thesis
          by (subst binaryFromHex_stored_from.simps) simp
      qed
    qed
  qed
qed

lemma hexDigit_NUL [simp]: "hexDigit NUL = None"
  by (simp add: hexDigit_def)

lemma decoded_pairs_length: "2 * length (decoded_pairs s) \<le> length s"
  by (induction s rule: decoded_pairs.induct) (auto split: option.splits)

lemma decoded_pairs_drop:
  assumes "2 * pos + 1 < length s"
  shows "decoded_pairs (drop (2 * pos) s) =
     (case hexDigit (s ! (2 * pos)) of
        None \<Rightarrow> []
      | Some hiDigit \<Rightarrow>
          (case hexDigit (s ! (2 * pos + 1)) of
             None \<Rightarrow> []
           | Some loDigit \<Rightarrow> (push_bit 4 hiDigit OR loDigit) # decoded_pairs (drop (2 * (pos + 1)) s)))"
proof -
  from assms have "drop (2 * pos) s = s ! (2 * pos) # drop (Suc (2 * pos)) s"
    by (simp add: Cons_nth_drop_Suc)
  also from assms have "drop (Suc (2 * pos)) s = s ! (2 * pos + 1) # drop (Suc (Suc (2 * pos))) s"
    by (simp add: Cons_nth_drop_Suc)
  finally show ?thesis by (simp split: option.splits)
qed

lemma decoded_pairs_drop_last:
  assumes "2 * pos + 1 = length s"
  shows "decoded_pairs (drop (2 * pos) s) = []"
proof -
  from assms have "length (drop (2 * pos) s) = 1" by simp
  then obtain c where "drop (2 * pos) s = [c]"
    by (cases "drop (2 * pos) s") auto
  then show ?thesis by simp
qed

lemma binaryFromHex_stored_from_eq:
  "pos \<le> length dest \<Longrightarrow> 2 * pos \<le> length s \<Longrightarrow>
   bytes = take (length dest - pos) (decoded_pairs (drop (2 * pos) s)) \<Longrightarrow>
   binaryFromHex_stored_from pos dest s =
     Inr (take pos dest @ bytes @ drop (pos + length bytes) dest, pos + length bytes)"
proof (induction pos dest s arbitrary: bytes rule: binaryFromHex_stored_from.induct)
  case (1 pos dest s)
  note le = "1.prems"(1,2) and bytes = "1.prems"(3)
  show ?case
  proof (cases "pos < length dest \<and> pos < length s * 2")
    case False
    then have "pos = length dest \<or> length s \<le> 2 * pos" using le by auto
    then have "bytes = []" unfolding bytes by auto
    moreover from False have "binaryFromHex_stored_from pos dest s = Inr (dest, pos)"
      by (subst binaryFromHex_stored_from.simps) auto
    ultimately show ?thesis by simp
  next
    case True
    then have pd: "pos < length dest" by simp
    consider "2 * pos = length s" | "2 * pos + 1 = length s" | "2 * pos + 1 < length s"
      using le by linarith
    then show ?thesis
    proof cases
      case 1
      then have "bytes = []" unfolding bytes by simp
      with True 1 show ?thesis
        by (subst binaryFromHex_stored_from.simps)
           (simp add: stored_char_at_def mult.commute)
    next
      case 2
      then have "decoded_pairs (drop (2 * pos) s) = []" by (rule decoded_pairs_drop_last)
      then have d: "bytes = []" unfolding bytes by simp
      from 2 have r: "stored_char_at s (pos * 2) = Inr (s ! (2 * pos))"
        "stored_char_at s (pos * 2 + 1) = Inr NUL"
        "stored_char_at s (Suc (pos * 2)) = Inr NUL"
        by (simp_all add: stored_char_at_def mult.commute)
      from True show ?thesis
        by (subst binaryFromHex_stored_from.simps)
           (simp add: r d split: option.splits)
    next
      case 3
      then have r: "stored_char_at s (pos * 2) = Inr (s ! (2 * pos))"
        "stored_char_at s (pos * 2 + 1) = Inr (s ! (2 * pos + 1))"
        "stored_char_at s (Suc (pos * 2)) = Inr (s ! (2 * pos + 1))"
        by (simp_all add: stored_char_at_def mult.commute)
      note d = decoded_pairs_drop [OF 3]
      show ?thesis
      proof (cases "hexDigit (s ! (2 * pos))")
        case None
        with d have "bytes = []" unfolding bytes by simp
        with True None show ?thesis
          by (subst binaryFromHex_stored_from.simps) (simp add: r)
      next
        case (Some hiDigit)
        note hi = this
        show ?thesis
        proof (cases "hexDigit (s ! (2 * pos + 1))")
          case None
          with d hi have "bytes = []" unfolding bytes by simp
          with True hi None show ?thesis
            by (subst binaryFromHex_stored_from.simps) (simp add: r)
        next
          case (Some loDigit)
          let ?b = "push_bit 4 hiDigit OR loDigit"
          let ?dest = "dest[pos := ?b]"
          let ?rest = "take (length ?dest - (pos + 1)) (decoded_pairs (drop (2 * (pos + 1)) s))"
          have step: "binaryFromHex_stored_from pos dest s = binaryFromHex_stored_from (pos + 1) ?dest s"
            using True hi Some by (subst binaryFromHex_stored_from.simps) (simp add: r)
          from pd have p1: "pos + 1 \<le> length ?dest" by simp
          from 3 have p2: "2 * (pos + 1) \<le> length s" by simp
          have ih: "binaryFromHex_stored_from (pos + 1) ?dest s =
            Inr (take (pos + 1) ?dest @ ?rest @ drop (pos + 1 + length ?rest) ?dest,
                 pos + 1 + length ?rest)"
          proof -
            from 3 have r0: "stored_char_at s (pos * 2 + 0) = Inr (s ! (2 * pos))"
              and r1: "stored_char_at s (pos * 2 + 1) = Inr (s ! (2 * pos + 1))"
              by (simp_all add: stored_char_at_def mult.commute)
            show ?thesis
              by (rule "1.IH" [OF True r0 hi r1 Some p1 p2 refl])
          qed
          have dp: "decoded_pairs (drop (2 * pos) s) = ?b # decoded_pairs (drop (2 * (pos + 1)) s)"
            using d hi Some by simp
          from pd have e: "length dest - pos = Suc (length ?dest - (pos + 1))"
            by simp
          have tk: "bytes = ?b # ?rest"
            unfolding bytes dp e by (rule take_Suc_Cons)
          have t1: "take (Suc pos) ?dest = take pos dest @ [?b]"
          proof -
            from pd have "pos < length ?dest" by simp
            then have "take (Suc pos) ?dest = take pos ?dest @ [?dest ! pos]"
              by (rule take_Suc_conv_app_nth)
            moreover have "take pos ?dest = take pos dest" by simp
            moreover from pd have "?dest ! pos = ?b" by simp
            ultimately show ?thesis by simp
          qed
          show ?thesis
            unfolding step ih tk using pd by (simp add: t1)
        qed
      qed
    qed
  qed
qed

lemma binaryFromHex_stored_eq:
  "binaryFromHex_stored dest s =
     Inr (take (length dest) (decoded_pairs s) @
            drop (length (take (length dest) (decoded_pairs s))) dest,
          length (take (length dest) (decoded_pairs s)))"
  unfolding binaryFromHex_stored_def
  using binaryFromHex_stored_from_eq [of 0 dest s "take (length dest) (decoded_pairs s)"]
  by simp

lemma binaryFromHex_attr_short:
  assumes "length s < 2 * length dest"
  shows "\<exists>out. binaryFromHex_attr dest (Some s) = Inr (out, False)"
proof -
  have "2 * length (decoded_pairs s) \<le> length s" by (rule decoded_pairs_length)
  with assms have "length (take (length dest) (decoded_pairs s)) \<noteq> length dest" by simp
  then show ?thesis
    by (simp add: binaryFromHex_attr_def binaryFromHex_stored_eq del: length_take)
qed


section \<open>The result event of a -listxml run\<close>

text \<open>
  C8.  When an abort has been requested the result event carries the status
  ABORTED, whatever \<^verbatim>\<open>process_xml\<close> returned; a parse failure yields the status
  ERROR, with the parser's message appended to a fixed prefix, only when no
  abort is pending.
\<close>

theorem listxml_abort_checked_first:
  "(hasAborted \<longrightarrow>
      ev_status (listxml_process success error_message hasAborted file_opens fn) = ABORTED) \<and>
   (\<not> hasAborted \<and> \<not> success \<longrightarrow>
      listxml_process success error_message hasAborted file_opens fn =
        \<lparr>ev_status = ERROR,
         ev_errorMessage = ''Error parsing XML from MAME -listxml: '' @ error_message\<rparr>) \<and>
   (\<not> success \<and> ev_status (listxml_process success error_message hasAborted file_opens fn) = ERROR
      \<longrightarrow> \<not> hasAborted)"
  by (simp add: listxml_process_def internalProcess_def)

theorem listxml_abort_checked_first_witness:
  "ev_status (listxml_process False ''premature end of document'' True True ''info.db'') = ABORTED \<and>
   listxml_process False ''premature end of document'' False True ''info.db'' =
     \<lparr>ev_status = ERROR,
      ev_errorMessage = ''Error parsing XML from MAME -listxml: premature end of document''\<rparr>"
  using listxml_abort_checked_first [of True False "''premature end of document''" True "''info.db''"]
    listxml_abort_checked_first [of False False "''premature end of document''" True "''info.db''"]
  by simp

section \<open>The completion event of a session\<close>

lemma run_process_Ok_unassigned:
  "m_type inaugural = Ok \<Longrightarrow>
   run_process inaugural scraped messages responses stderr_bytes = Some ev \<Longrightarrow>
   m_success ev = Unassigned"
  by (auto simp: run_process_def Let_def split: option.splits)

text \<open>
  C10.  The claim is that \<^verbatim>\<open>success\<close> is assigned on every path before the
  completion event reads it.  When the inaugural response is OK and the child
  process then terminates without error, no assignment to \<^verbatim>\<open>success\<close> has
  been executed when the event is built.
\<close>

theorem run_process_success_never_assigned:
  "run_process \<lparr>m_type = Ok, m_text = []\<rparr> [] [TERMINATED NONE] [] [] =
     Some \<lparr>m_success = Unassigned, m_errorMessage = []\<rparr>"
  by (simp add: run_process_def)

section \<open>Interning strings\<close>

lemma unat_word_of_nat_32: "n < 2 ^ 32 \<Longrightarrow> unat (word_of_nat n :: uint32) = n"
  by (simp add: unat_of_nat)

lemma to_uint32_Inr_iff: "to_uint32 n = Inr w \<longleftrightarrow> n < 2 ^ 32 \<and> w = word_of_nat n"
proof (cases "n < 2 ^ 32")
  case True
  then show ?thesis by (auto simp: to_uint32_def Let_def unat_word_of_nat_32)
next
  case False
  have "unat (word_of_nat n :: uint32) < 2 ^ 32"
    using unsigned_less [of "word_of_nat n :: uint32"] by simp
  with False have "unat (word_of_nat n :: uint32) \<noteq> n" by auto
  with False show ?thesis by (simp add: to_uint32_def Let_def)
qed

lemma to_uint32_Inl_iff:
  "to_uint32 n = Inl e \<longleftrightarrow> 2 ^ 32 \<le> n \<and> e = logic_error ''Array size cannot fit in 32 bits''"
proof (cases "to_uint32 n")
  case (Inl a)
  then have "\<not> n < 2 ^ 32" using to_uint32_Inr_iff [of n] by (metis Inl_Inr_False)
  moreover from Inl have "a = logic_error ''Array size cannot fit in 32 bits''"
    by (auto simp: to_uint32_def Let_def split: if_splits)
  ultimately show ?thesis using Inl by auto
next
  case (Inr b)
  then show ?thesis using to_uint32_Inr_iff [of n b] by auto
qed

lemma to_uint32_Inr: "to_uint32 n = Inr w \<Longrightarrow> unat w = n \<and> w = word_of_nat n"
  by (auto simp: to_uint32_def Let_def split: if_splits)

lemma c_str_terminated: "NUL \<notin> set s \<Longrightarrow> c_str (s @ NUL # rest) = s"
  by (auto simp: c_str_def takeWhile_tail)

lemma stored_at_drop:
  assumes "stored_at t s r"
  shows "drop (unat r) (m_data t) = s @ NUL # drop (length s + 1) (drop (unat r) (m_data t))"
proof -
  have "drop (unat r) (m_data t) =
        take (length s + 1) (drop (unat r) (m_data t)) @ drop (length s + 1) (drop (unat r) (m_data t))"
    by (simp only: append_take_drop_id)
  then show ?thesis using assms by (simp add: stored_at_def)
qed

lemma stored_at_append:
  "stored_at t s r \<Longrightarrow> m_data t' = m_data t @ extra \<Longrightarrow> stored_at t' s r"
  by (simp add: stored_at_def)

lemma lookup_stored_at:
  assumes "stored_at t s r" "NUL \<notin> set s" "tryDecodeAsSmallString h r = None"
  shows "string_table_lookup h t r = Inr s"
proof -
  let ?rest = "drop (length s + 1) (drop (unat r) (m_data t))"
  have d: "drop (unat r) (m_data t) = s @ NUL # ?rest"
    by (rule stored_at_drop [OF assms(1)])
  have c: "c_str (drop (unat r) (m_data t)) = s"
    by (subst d) (rule c_str_terminated [OF assms(2)])
  have b: "unat r + length s < length (m_data t)"
    using assms(1) by (simp add: stored_at_def)
  show ?thesis
    using assms(3) b c by (simp add: string_table_lookup_def strlen_def)
qed

lemma string_table_inv_ctor: "string_table_inv (string_table_ctor h)"
  by (simp add: string_table_inv_def string_table_ctor_def embed_value_def)

lemma string_table_inv_embed:
  assumes "string_table_inv t"
  shows "string_table_inv (embed_value bytes t)"
  unfolding string_table_inv_def
proof (intro allI impI)
  fix s r assume "m_map (embed_value bytes t) s = Some r"
  then have "m_map t s = Some r" by (simp add: embed_value_def)
  with assms have "stored_at t s r" by (simp add: string_table_inv_def)
  then show "stored_at (embed_value bytes t) s r"
    by (rule stored_at_append) (simp add: embed_value_def)
qed

lemma get_cases:
  assumes "string_table_get h s t = Inr (r, t')"
  obtains
    (small) "tryEncodeAsSmallString h s = Some r" "t' = t"
  | (cached) "tryEncodeAsSmallString h s = None" "m_map t s = Some r" "t' = t"
  | (fresh) "tryEncodeAsSmallString h s = None" "m_map t s = None"
      "unat r = length (m_data t)"
      "t' = t\<lparr>m_data := m_data t @ s @ [NUL], m_map := (m_map t)(s \<mapsto> r)\<rparr>"
  using assms
  by (auto simp: string_table_get_def split: option.splits sum.splits dest: to_uint32_Inr)

lemma string_table_inv_get:
  assumes "string_table_inv t" "string_table_get h s t = Inr (r, t')"
  shows "string_table_inv t'"
  using assms(2)
proof (cases rule: get_cases)
  case small
  with assms(1) show ?thesis by simp
next
  case cached
  with assms(1) show ?thesis by simp
next
  case fresh
  have new: "stored_at t' s r"
    using fresh by (simp add: stored_at_def)
  have old: "stored_at t' s' r'" if "m_map t s' = Some r'" for s' r'
  proof -
    from assms(1) that have "stored_at t s' r'" by (simp add: string_table_inv_def)
    then show ?thesis by (rule stored_at_append) (simp add: fresh)
  qed
  show ?thesis
    unfolding string_table_inv_def
  proof (intro allI impI)
    fix s' r' assume m: "m_map t' s' = Some r'"
    show "stored_at t' s' r'"
    proof (cases "s' = s")
      case True
      with m fresh new show ?thesis by simp
    next
      case False
      with m fresh have "m_map t s' = Some r'" by simp
      then show ?thesis by (rule old)
    qed
  qed
qed

lemma reachable_inv: "reachable h t \<Longrightarrow> string_table_inv t"
  by (induction rule: reachable.induct)
     (auto intro: string_table_inv_ctor string_table_inv_get string_table_inv_embed)

lemma get_twice:
  assumes "string_table_get h s t = Inr (r, t')"
  shows "string_table_get h s t' = Inr (r, t')"
  using assms
  by (cases rule: get_cases) (simp_all add: string_table_get_def)

lemma lookup_get:
  assumes "string_table_inv t" "NUL \<notin> set s" "string_table_get h s t = Inr (r, t')"
    "small_string_agrees h s r"
  shows "string_table_lookup h t' r = Inr s"
  using assms(3)
proof (cases rule: get_cases)
  case small
  with assms(4) show ?thesis
    by (auto simp: small_string_agrees_def string_table_lookup_def split: option.splits)
next
  case cached
  with assms(1) have "stored_at t' s r" by (simp add: string_table_inv_def)
  moreover from cached assms(4) have "tryDecodeAsSmallString h r = None"
    by (simp add: small_string_agrees_def)
  ultimately show ?thesis using assms(2) by (intro lookup_stored_at)
next
  case fresh
  from assms(1,3) have "string_table_inv t'" by (rule string_table_inv_get)
  moreover from fresh have "m_map t' s = Some r" by simp
  ultimately have "stored_at t' s r" by (simp add: string_table_inv_def)
  moreover from fresh assms(4) have "tryDecodeAsSmallString h r = None"
    by (simp add: small_string_agrees_def)
  ultimately show ?thesis using assms(2) by (intro lookup_stored_at)
qed

text \<open>
  \<^verbatim>\<open>get\<close> returns a reference unless a new string would start at a position
  that does not fit 32 bits.
\<close>

lemma string_table_get_returns:
  "length (m_data t) < 2 ^ 32 \<Longrightarrow> \<exists>r t'. string_table_get h s t = Inr (r, t')"
proof -
  assume "length (m_data t) < 2 ^ 32"
  then have "to_uint32 (length (m_data t)) = Inr (word_of_nat (length (m_data t)))"
    by (simp add: to_uint32_Inr_iff)
  then show ?thesis
    by (simp add: string_table_get_def split: option.splits)
qed

text \<open>
  C5.  Interning is idempotent and round-trips.  For a table the builder can
  reach and a string \<open>s\<close> (the bytes of a C string, so without a NUL byte) for
  which \<^verbatim>\<open>get\<close> returns the reference \<open>r\<close>: a second \<^verbatim>\<open>get\<close> of \<open>s\<close> returns \<open>r\<close> again
  and leaves the table as it is, and \<^verbatim>\<open>lookup\<close> of \<open>r\<close> yields exactly \<open>s\<close>.  Of the
  small-string functions, which are not among the sources, the statement asks
  that they agree on \<open>s\<close>.
\<close>

theorem string_table_get_lookup:
  assumes "reachable h t" "NUL \<notin> set s" "string_table_get h s t = Inr (r, t')"
    "small_string_agrees h s r"
  shows "string_table_get h s t' = Inr (r, t') \<and> string_table_lookup h t' r = Inr s"
  using get_twice [OF assms(3)] lookup_get [OF reachable_inv [OF assms(1)] assms(2,3,4)]
  by simp

theorem string_table_get_lookup_witness:
  "NUL \<notin> set ''galaga88'' \<and>
   string_table_get example_h ''galaga88'' (string_table_ctor example_h) =
     Inr (4, \<lparr>m_data = ''STRBgalaga88'' @ [NUL], m_map = [''galaga88'' \<mapsto> 4]\<rparr>) \<and>
   small_string_agrees example_h ''galaga88'' 4 \<and>
   string_table_get example_h ''galaga88''
       \<lparr>m_data = ''STRBgalaga88'' @ [NUL], m_map = [''galaga88'' \<mapsto> 4]\<rparr> =
     Inr (4, \<lparr>m_data = ''STRBgalaga88'' @ [NUL], m_map = [''galaga88'' \<mapsto> 4]\<rparr>) \<and>
   string_table_lookup example_h
       \<lparr>m_data = ''STRBgalaga88'' @ [NUL], m_map = [''galaga88'' \<mapsto> 4]\<rparr> 4 = Inr ''galaga88''"
proof -
  let ?t = "\<lparr>m_data = ''STRBgalaga88'' @ [NUL], m_map = [''galaga88'' \<mapsto> (4 :: uint32)]\<rparr>"
  have n: "NUL \<notin> set ''galaga88''" by simp
  have g: "string_table_get example_h ''galaga88'' (string_table_ctor example_h) = Inr (4, ?t)"
    by (simp add: string_table_get_def string_table_ctor_def embed_value_def example_h_def
        to_uint32_def)
  have a: "small_string_agrees example_h ''galaga88'' 4"
    by (simp add: small_string_agrees_def example_h_def)
  from string_table_get_lookup [OF reachable_ctor n g a] n g a show ?thesis by simp
qed

section \<open>Sorting by name\<close>

lemma then_do_Inr [simp]: "then_do r f = Inr y \<longleftrightarrow> (\<exists>v. r = Inr v \<and> f v = Inr y)"
  by (cases r) (auto simp: then_do_def)

lemma then_do_Inl: "then_do r f = Inl e \<longleftrightarrow> r = Inl e \<or> (\<exists>v. r = Inr v \<and> f v = Inl e)"
  by (cases r) (auto simp: then_do_def)

lemma of_char_less_iff: "(of_char a :: nat) < of_char b \<longleftrightarrow> a < b"
  by (simp add: less_char_def)

lemma of_char_NUL_iff: "(of_char a :: nat) = 0 \<longleftrightarrow> a = NUL"
proof -
  have "(of_char NUL :: nat) = 0" by simp
  then have "(of_char a :: nat) = 0 \<longleftrightarrow> (of_char a :: nat) = of_char NUL" by simp
  then show ?thesis by (simp only: of_char_eq_iff)
qed

lemma strcmp_less_iff:
  "NUL \<notin> set a \<Longrightarrow> NUL \<notin> set b \<Longrightarrow> strcmp a b < 0 \<longleftrightarrow> a < b"
proof (induction a b rule: strcmp.induct)
  case 1
  then show ?case by simp
next
  case (2 b bs)
  then have "(of_char b :: nat) \<noteq> 0" by (auto simp: of_char_NUL_iff)
  then show ?case by simp
next
  case (3 a as)
  then show ?case by simp
next
  case (4 a as b bs)
  then show ?case by (auto simp: of_char_less_iff [symmetric])
qed

lemma strcmp_eq_iff:
  "NUL \<notin> set a \<Longrightarrow> NUL \<notin> set b \<Longrightarrow> strcmp a b = 0 \<longleftrightarrow> a = b"
proof (induction a b rule: strcmp.induct)
  case 1
  then show ?case by simp
next
  case (2 b bs)
  then have "(of_char b :: nat) \<noteq> 0" by (auto simp: of_char_NUL_iff)
  then show ?case by simp
next
  case (3 a as)
  then have "(of_char a :: nat) \<noteq> 0" by (auto simp: of_char_NUL_iff)
  then show ?case by simp
next
  case (4 a as b bs)
  then show ?case by auto
qed

lemma strcmp_swap: "strcmp b a = - strcmp a b"
  by (induction a b rule: strcmp.induct) auto

lemma c_str_NUL_free: "NUL \<notin> set (c_str bytes)"
  by (auto simp: c_str_def dest: set_takeWhileD)

lemma lookup_NUL_free: "string_table_lookup h t r = Inr s \<Longrightarrow> NUL \<notin> set s"
  by (auto simp: string_table_lookup_def c_str_NUL_free split: option.splits if_splits)

lemma c_str_append: "NUL \<in> set xs \<Longrightarrow> c_str (xs @ ys) = c_str xs"
  by (simp add: c_str_def takeWhile_append1)

lemma c_str_length_less:
  assumes "length (c_str xs) < length xs"
  shows "NUL \<in> set xs"
proof (rule ccontr)
  assume "NUL \<notin> set xs"
  then have "c_str xs = xs" by (auto simp: c_str_def takeWhile_eq_all_conv)
  with assms show False by simp
qed

lemma lookup_append:
  assumes "string_table_lookup h t r = Inr s" "m_data t' = m_data t @ extra"
  shows "string_table_lookup h t' r = Inr s"
proof (cases "tryDecodeAsSmallString h r")
  case (Some sso)
  with assms(1) show ?thesis by (simp add: string_table_lookup_def)
next
  case None
  let ?d = "drop (unat r) (m_data t)"
  from assms(1) None have v: "unat r < length (m_data t)"
    and l: "unat r + strlen ?d < length (m_data t)"
    and s: "s = c_str ?d"
    by (auto simp: string_table_lookup_def split: if_splits)
  from l have "length (c_str ?d) < length ?d" by (simp add: strlen_def)
  then have n: "NUL \<in> set ?d" by (rule c_str_length_less)
  from v have d': "drop (unat r) (m_data t') = ?d @ extra" by (simp add: assms(2))
  from n have c: "c_str (?d @ extra) = c_str ?d" by (rule c_str_append)
  from None v l s show ?thesis
    by (simp add: string_table_lookup_def strlen_def d' c assms(2))
qed

lemma get_appends: "string_table_get h s t = Inr (r, t') \<Longrightarrow> \<exists>extra. m_data t' = m_data t @ extra"
  by (erule get_cases) auto

lemma insert_by_mset: "insert_by cmp x ys = Inr zs \<Longrightarrow> mset zs = add_mset x (mset ys)"
proof (induction ys arbitrary: zs)
  case Nil
  then show ?case by auto
next
  case (Cons y ys)
  then show ?case by (auto split: if_splits)
qed

lemma sort_by_mset: "sort_by cmp placed xs = Inr zs \<Longrightarrow> mset zs = mset placed + mset xs"
proof (induction xs arbitrary: placed zs)
  case Nil
  then show ?case by simp
next
  case (Cons x xs)
  then show ?case by (auto dest!: insert_by_mset)
qed

lemma insert_by_map:
  "insert_by cmp (f x) (map f ys) = map_sum id (map f) (insert_by (\<lambda>i j. cmp (f i) (f j)) x ys)"
proof (induction ys)
  case Nil
  then show ?case by simp
next
  case (Cons y ys)
  show ?case
  proof (cases "cmp (f x) (f y)")
    case (Inl e)
    then show ?thesis by (simp add: then_do_def)
  next
    case (Inr b)
    then show ?thesis
      using Cons by (cases "insert_by (\<lambda>i j. cmp (f i) (f j)) x ys") (simp_all add: then_do_def)
  qed
qed

lemma sort_by_map:
  "sort_by cmp (map f placed) (map f xs) =
     map_sum id (map f) (sort_by (\<lambda>i j. cmp (f i) (f j)) placed xs)"
proof (induction xs arbitrary: placed)
  case Nil
  then show ?case by simp
next
  case (Cons x xs)
  show ?case
  proof (cases "insert_by (\<lambda>i j. cmp (f i) (f j)) x placed")
    case (Inl e)
    then show ?thesis by (simp add: insert_by_map then_do_def)
  next
    case (Inr placed')
    then show ?thesis by (simp add: insert_by_map then_do_def Cons)
  qed
qed

lemma name_less_Inr:
  "name_less h t a b = Inr v \<longleftrightarrow>
     (\<exists>x y. machine_name h t a = Inr x \<and> machine_name h t b = Inr y \<and> v = (strcmp x y < 0))"
  by (auto simp: name_less_def machine_name_def)

lemma in_order_iff:
  "in_order h t a b \<longleftrightarrow>
     (\<exists>x y. machine_name h t a = Inr x \<and> machine_name h t b = Inr y \<and> strcmp x y \<le> 0)"
  by (auto simp: in_order_def split: sum.splits)

lemma machine_name_NUL_free: "machine_name h t m = Inr s \<Longrightarrow> NUL \<notin> set s"
  unfolding machine_name_def by (rule lookup_NUL_free)

lemma strcmp_le_iff: "NUL \<notin> set a \<Longrightarrow> NUL \<notin> set b \<Longrightarrow> strcmp a b \<le> 0 \<longleftrightarrow> a \<le> b"
  using strcmp_less_iff [of a b] strcmp_eq_iff [of a b] by auto

lemma in_order_less_trans:
  assumes "name_less h t x y = Inr True" "in_order h t y z"
  shows "in_order h t x z"
proof -
  from assms(1) obtain a b where a: "machine_name h t x = Inr a" and b: "machine_name h t y = Inr b"
    and ab: "strcmp a b < 0" by (auto simp: name_less_Inr)
  from assms(2) b obtain c where c: "machine_name h t z = Inr c" and bc: "strcmp b c \<le> 0"
    by (auto simp: in_order_iff)
  note n = machine_name_NUL_free [OF a] machine_name_NUL_free [OF b] machine_name_NUL_free [OF c]
  from ab bc have "a < b" "b \<le> c"
    by (simp_all add: strcmp_less_iff strcmp_le_iff n)
  then have "a \<le> c" by simp
  then have "strcmp a c \<le> 0" by (simp add: strcmp_le_iff n)
  with a c show ?thesis by (auto simp: in_order_iff)
qed

lemma in_order_not_less:
  assumes "name_less h t x y = Inr False"
  shows "in_order h t y x"
proof -
  from assms obtain a b where a: "machine_name h t x = Inr a" and b: "machine_name h t y = Inr b"
    and ab: "\<not> strcmp a b < 0" by (auto simp: name_less_Inr)
  from ab have "strcmp b a \<le> 0" using strcmp_swap [of a b] by simp
  with a b show ?thesis by (auto simp: in_order_iff)
qed

lemma in_order_less: "name_less h t x y = Inr True \<Longrightarrow> in_order h t x y"
  by (auto simp: name_less_Inr in_order_iff)

lemma insert_by_sorted:
  "insert_by (name_less h t) x ys = Inr zs \<Longrightarrow> sorted_wrt (in_order h t) ys \<Longrightarrow>
   sorted_wrt (in_order h t) zs"
proof (induction ys arbitrary: zs)
  case Nil
  then show ?case by auto
next
  case (Cons y ys)
  from Cons.prems(1) obtain lt where lt: "name_less h t x y = Inr lt" by auto
  show ?case
  proof (cases lt)
    case True
    with lt Cons.prems(1) have zs: "zs = x # y # ys" by auto
    from lt True have xy: "name_less h t x y = Inr True" by simp
    have "in_order h t x z" if "z \<in> set ys" for z
      using in_order_less_trans [OF xy] Cons.prems(2) that by auto
    with in_order_less [OF xy] Cons.prems(2) show ?thesis by (auto simp: zs)
  next
    case False
    with lt Cons.prems(1) obtain zs' where i: "insert_by (name_less h t) x ys = Inr zs'"
      and zs: "zs = y # zs'" by auto
    from Cons.prems(2) have "sorted_wrt (in_order h t) ys" by simp
    with i have s: "sorted_wrt (in_order h t) zs'" by (rule Cons.IH)
    from insert_by_mset [OF i] have "set zs' = insert x (set ys)"
      by (metis set_mset_add_mset_insert set_mset_mset)
    moreover from lt False have "in_order h t y x" by (simp add: in_order_not_less)
    ultimately show ?thesis using s Cons.prems(2) by (auto simp: zs)
  qed
qed

lemma sort_by_sorted:
  "sort_by (name_less h t) placed xs = Inr zs \<Longrightarrow> sorted_wrt (in_order h t) placed \<Longrightarrow>
   sorted_wrt (in_order h t) zs"
proof (induction xs arbitrary: placed zs)
  case Nil
  then show ?case by simp
next
  case (Cons x xs)
  from Cons.prems(1) obtain placed' where i: "insert_by (name_less h t) x placed = Inr placed'"
    and s: "sort_by (name_less h t) placed' xs = Inr zs" by auto
  from insert_by_sorted [OF i Cons.prems(2)] s show ?case by (rule Cons.IH [rotated])
qed

lemma std_sort_sorted: "std_sort h t order ms = Inr srt \<Longrightarrow> sorted_wrt (in_order h t) srt"
  unfolding std_sort_def by (erule sort_by_sorted) simp

lemma std_sort_positions:
  assumes "std_sort h t order ms = Inr srt"
  obtains positions where
    "sort_by (\<lambda>i j. name_less h t (ms ! i) (ms ! j)) [] order = Inr positions"
    "srt = map (\<lambda>i. ms ! i) positions" "mset positions = mset order"
proof -
  from assms have "map_sum id (map (\<lambda>i. ms ! i))
      (sort_by (\<lambda>i j. name_less h t (ms ! i) (ms ! j)) [] order) = Inr srt"
    using sort_by_map [of "name_less h t" "\<lambda>i. ms ! i" "[]" order] by (simp add: std_sort_def)
  then obtain positions where
    p: "sort_by (\<lambda>i j. name_less h t (ms ! i) (ms ! j)) [] order = Inr positions"
    and s: "srt = map (\<lambda>i. ms ! i) positions"
    by (cases "sort_by (\<lambda>i j. name_less h t (ms ! i) (ms ! j)) [] order") auto
  from sort_by_mset [OF p] have "mset positions = mset order" by simp
  with p s show ?thesis by (rule that)
qed

text \<open>
  A table that is sorted already is left as it is: every sorted arrangement is
  the outcome of the sort for some order.
\<close>

lemma insert_by_last:
  "\<forall>y \<in> set ys. cmp x y = Inr False \<Longrightarrow> insert_by cmp x ys = Inr (ys @ [x])"
  by (induction ys) (simp_all add: then_do_def)

lemma sort_by_sorted_id:
  "sorted_wrt (in_order h t) (placed @ xs) \<Longrightarrow> sort_by (name_less h t) placed xs = Inr (placed @ xs)"
proof (induction xs arbitrary: placed)
  case Nil
  then show ?case by simp
next
  case (Cons x xs)
  have "name_less h t x y = Inr False" if "y \<in> set placed" for y
  proof -
    from Cons.prems that have "in_order h t y x" by (auto simp: sorted_wrt_append)
    then obtain a b where "machine_name h t y = Inr a" "machine_name h t x = Inr b" "strcmp a b \<le> 0"
      by (auto simp: in_order_iff)
    then show ?thesis using strcmp_swap [of a b] by (auto simp: name_less_Inr)
  qed
  then have "insert_by (name_less h t) x placed = Inr (placed @ [x])"
    by (intro insert_by_last) simp
  moreover from Cons.prems have "sort_by (name_less h t) (placed @ [x]) xs = Inr ((placed @ [x]) @ xs)"
    by (intro Cons.IH) simp
  ultimately show ?case by (simp add: then_do_def)
qed

lemma std_sort_sorted_id:
  "sorted_wrt (in_order h t) (map (\<lambda>i. ms ! i) order) \<Longrightarrow>
   std_sort h t order ms = Inr (map (\<lambda>i. ms ! i) order)"
  unfolding std_sort_def using sort_by_sorted_id [of h t "[]"] by simp

lemma sorted_readable:
  assumes "sorted_wrt (in_order h t) ms" "length ms \<noteq> 1" "m \<in> set ms"
  shows "\<exists>s. machine_name h t m = Inr s"
proof (cases ms)
  case Nil
  with assms(3) show ?thesis by simp
next
  case (Cons a rest)
  with assms(2) obtain b rest' where rest: "rest = b # rest'" by (cases rest) auto
  from assms(1) Cons rest have "in_order h t a b" "\<forall>z \<in> set rest. in_order h t a z" by auto
  with assms(3) Cons show ?thesis by (auto simp: in_order_iff)
qed

section \<open>Child ranges\<close>

lemma update_last_Inr:
  "update_last f xs = Inr ys \<longleftrightarrow> xs \<noteq> [] \<and> ys = butlast xs @ [f (last xs)]"
  by (auto simp: update_last_def)

lemma map_update_last:
  assumes "xs \<noteq> []" "g (f (last xs)) = g (last xs)"
  shows "map g (butlast xs @ [f (last xs)]) = map g xs"
proof -
  have "map g xs = map g (butlast xs @ [last xs])"
    using assms(1) by simp
  then show ?thesis using assms(2) by simp
qed

lemma map_butlast_snoc: "xs \<noteq> [] \<Longrightarrow> map g (butlast xs) @ [g (last xs)] = map g xs"
  by (induction xs) auto

lemma map_pair_butlast_snoc:
  "xs \<noteq> [] \<Longrightarrow> map (\<lambda>m. (f m, g m)) (butlast xs) @ [(f (last xs), g (last xs))] =
     map (\<lambda>m. (f m, g m)) xs"
  by (induction xs) auto

lemma run_append: "run f (xs @ ys) s = then_do (run f xs s) (run f ys)"
  by (induction xs arbitrary: s) (auto simp: then_do_def split: sum.splits)

lemma run_preserves:
  assumes "\<And>x s s'. f x s = Inr s' \<Longrightarrow> Q s \<Longrightarrow> Q s'"
    and "run f xs s = Inr s'" "Q s"
  shows "Q s'"
  using assms(2,3)
proof (induction xs arbitrary: s)
  case Nil
  then show ?case by simp
next
  case (Cons x xs)
  then show ?case using assms(1) by auto
qed

lemma condition_begin_layout: "condition_begin h e b = Inr b' \<Longrightarrow> layout b' = layout b"
  by (auto simp: condition_begin_def layout_def)

lemma conditions_layout: "run (condition_begin h) es b = Inr b' \<Longrightarrow> layout b' = layout b"
  by (rule run_preserves [where Q = "\<lambda>s. layout s = layout b" and f = "condition_begin h"])
     (auto dest: condition_begin_layout)

lemma confsetting_begin_layout: "confsetting_begin h e b = Inr b' \<Longrightarrow> layout b' = layout b"
  by (auto simp: confsetting_begin_def layout_def update_last_Inr fun_eq_iff map_butlast_snoc)

lemma slotoption_begin_layout: "slotoption_begin h e b = Inr b' \<Longrightarrow> layout b' = layout b"
  by (auto simp: slotoption_begin_def layout_def update_last_Inr fun_eq_iff map_butlast_snoc)

lemma instance_begin_layout: "instance_begin h e b = Inr b' \<Longrightarrow> layout b' = layout b"
  by (auto simp: instance_begin_def layout_def update_last_Inr fun_eq_iff map_butlast_snoc)

lemma extension_begin_layout: "extension_begin e b = Inr b' \<Longrightarrow> layout b' = layout b"
  by (auto simp: extension_begin_def layout_def split: option.splits)

lemma device_end_layout: "device_end h b = Inr b' \<Longrightarrow> layout b' = layout b"
  by (auto simp: device_end_def layout_def update_last_Inr fun_eq_iff map_butlast_snoc
      split: if_splits)

lemma nested_element_layout: "nested_element h k n b = Inr b' \<Longrightarrow> layout b' = layout b"
  by (cases n)
     (auto simp: nested_element_def split: if_splits
       dest!: confsetting_begin_layout conditions_layout slotoption_begin_layout
         instance_begin_layout extension_begin_layout)

lemma nested_elements_layout: "run (nested_element h k) ns b = Inr b' \<Longrightarrow> layout b' = layout b"
  by (rule run_preserves [where Q = "\<lambda>s. layout s = layout b" and f = "nested_element h k"])
     (auto dest: nested_element_layout)

lemma text_end_layout:
  assumes "text_end h assign content b = Inr b'"
    "\<And>r m. m_index (assign r m) = m_index m" "\<And>r m. m_count (assign r m) = m_count m"
  shows "layout b' = layout b"
  using assms
  by (auto simp: text_end_def layout_def update_last_Inr map_pair_butlast_snoc)

lemma to_uint32_sizes_Inr:
  "to_uint32_sizes sz ks = Inr f \<Longrightarrow> k \<in> set ks \<Longrightarrow> sz k < 2 ^ 32 \<and> unat (f k) = sz k"
proof (induction ks arbitrary: f)
  case Nil
  then show ?case by simp
next
  case (Cons a ks)
  then show ?case
    by (auto simp: to_uint32_Inr_iff unat_word_of_nat_32)
qed

lemma all_kinds_complete: "k \<in> set all_kinds"
  by (cases k) (simp_all add: all_kinds_def)

lemma machine_begin_layout:
  assumes "machine_begin h attrs b = Inr b'" "layout b = (L, T)"
  shows "\<exists>index. layout b' = (L @ [(index, \<lambda>k. 0)], T) \<and>
           (\<forall>k. length (T k) < 2 ^ 32 \<and> unat (index k) = length (T k))"
proof -
  from assms(1) obtain index t where
    i: "to_uint32_sizes (\<lambda>k. length (m_children b k)) all_kinds = Inr index"
    and b': "m_machines b' = m_machines b @
       [\<lparr>m_name_strindex = fst t, m_sourcefile_strindex = fst (snd t),
         m_clone_of_machindex = fst (snd (snd t)), m_rom_of_machindex = snd (snd (snd t)),
         m_description_strindex = 0, m_year_strindex = 0, m_manufacturer_strindex = 0,
         m_index = index, m_count = (\<lambda>k. 0)\<rparr>]"
    and c: "m_children b' = m_children b"
    by (auto simp: machine_begin_def)
  have "length (m_children b k) < 2 ^ 32 \<and> unat (index k) = length (m_children b k)" for k
    using to_uint32_sizes_Inr [OF i all_kinds_complete [of k]] by simp
  moreover have "length (T k) = length (m_children b k)" for k
    using assms(2) by (auto simp: layout_def)
  ultimately show ?thesis
    using assms(2) b' c by (auto simp: layout_def)
qed

lemma child_begin_layout:
  assumes "child_begin h k e b = Inr b'" "layout b = (L @ [(index, cnt)], T)"
  shows "layout b' = (L @ [(index, cnt(k := cnt k + 1))], T(k := T k @ [e_fields e]))"
proof -
  from assms(1) obtain refs ix t where
    ne: "m_machines b \<noteq> []"
    and m: "m_machines b' = butlast (m_machines b) @
       [(last (m_machines b))\<lparr>m_count := (m_count (last (m_machines b)))
           (k := m_count (last (m_machines b)) k + 1)\<rparr>]"
    and c: "m_children b' = (m_children b)(k := m_children b k @ [new_child refs (e_fields e) ix])"
    by (auto simp: child_begin_def update_last_Inr)
  let ?g = "\<lambda>m. (m_index m, m_count m)"
  from assms(2) have l: "map ?g (m_machines b) = L @ [(index, cnt)]"
    and t: "T = (\<lambda>k. map c_fields (m_children b k))"
    by (auto simp: layout_def)
  have "map ?g (butlast (m_machines b)) = butlast (map ?g (m_machines b))"
    by (simp only: map_butlast)
  with l have bl: "map ?g (butlast (m_machines b)) = L" by simp
  have "?g (last (m_machines b)) = last (map ?g (m_machines b))"
    using last_map [OF ne, of ?g] by simp
  with l have la: "?g (last (m_machines b)) = (index, cnt)" by simp
  from bl la have "map ?g (m_machines b') = L @ [(index, cnt(k := cnt k + 1))]"
    using m by simp
  moreover have "(\<lambda>k'. map c_fields (m_children b' k')) = T(k := T k @ [e_fields e])"
    using c t by (auto simp: fun_eq_iff new_child_def)
  ultimately show ?thesis by (simp add: layout_def)
qed

lemma child_element_layout:
  assumes "child_element h k e ns b = Inr b'" "layout b = (L @ [(index, cnt)], T)"
  shows "layout b' = (L @ [(index, cnt(k := cnt k + 1))], T(k := T k @ [e_fields e]))"
proof -
  from assms(1) obtain b1 b2 where
    1: "child_begin h k e b = Inr b1"
    and 2: "run (nested_element h k) ns b1 = Inr b2"
    and 3: "(if k = Device then device_end h b2 else Inr b2) = Inr b'"
    by (auto simp: child_element_def)
  from 3 have "layout b' = layout b2"
    by (auto split: if_splits dest: device_end_layout)
  also from 2 have "\<dots> = layout b1" by (rule nested_elements_layout)
  also from 1 assms(2) have "\<dots> = (L @ [(index, cnt(k := cnt k + 1))], T(k := T k @ [e_fields e]))"
    by (rule child_begin_layout)
  finally show ?thesis .
qed

lemma item_element_layout:
  assumes "item_element h i b = Inr b'" "layout b = (L @ [(index, cnt)], T)"
  shows "layout b' =
    (L @ [(index, \<lambda>k. cnt k + word_of_nat (length (item_child k i)))], \<lambda>k. T k @ item_child k i)"
proof (cases i)
  case (Child k e ns)
  with assms(1) have "child_element h k e ns b = Inr b'" by (simp add: item_element_def)
  from child_element_layout [OF this assms(2)]
  have "layout b' = (L @ [(index, cnt(k := cnt k + 1))], T(k := T k @ [e_fields e]))" .
  moreover have "cnt(k := cnt k + 1) = (\<lambda>k'. cnt k' + word_of_nat (length (item_child k' i)))"
    using Child by (auto simp: fun_eq_iff item_child_def)
  moreover have "T(k := T k @ [e_fields e]) = (\<lambda>k'. T k' @ item_child k' i)"
    using Child by (auto simp: fun_eq_iff item_child_def)
  ultimately show ?thesis by simp
next
  case (Description c)
  with assms(1) have "layout b' = layout b"
    by (auto simp: item_element_def intro: text_end_layout)
  with assms(2) Description show ?thesis by (simp add: item_child_def)
next
  case (Year c)
  with assms(1) have "layout b' = layout b"
    by (auto simp: item_element_def intro: text_end_layout)
  with assms(2) Year show ?thesis by (simp add: item_child_def)
next
  case (Manufacturer c)
  with assms(1) have "layout b' = layout b"
    by (auto simp: item_element_def intro: text_end_layout)
  with assms(2) Manufacturer show ?thesis by (simp add: item_child_def)
next
  case (Other n)
  with assms show ?thesis by (simp add: item_element_def item_child_def)
qed

lemma items_layout:
  "run (item_element h) items b = Inr b' \<Longrightarrow> layout b = (L @ [(index, cnt)], T) \<Longrightarrow>
   layout b' =
     (L @ [(index, \<lambda>k. cnt k + word_of_nat (length (items_children k items)))],
      \<lambda>k. T k @ items_children k items)"
proof (induction items arbitrary: b cnt T)
  case Nil
  then show ?case by (simp add: items_children_def)
next
  case (Cons i items)
  from Cons.prems(1) obtain b1 where
    1: "item_element h i b = Inr b1" and 2: "run (item_element h) items b1 = Inr b'"
    by auto
  note l1 = item_element_layout [OF 1 Cons.prems(2)]
  from Cons.IH [OF 2 l1] show ?case
    by (simp add: items_children_def add.assoc)
qed

lemma machine_element_layout:
  assumes "machine_element h me b = Inr b'" "layout b = (L, T)"
  shows "\<exists>index. layout b' =
      (L @ [(index, \<lambda>k. word_of_nat (length (children_of k me)))], \<lambda>k. T k @ children_of k me) \<and>
      (\<forall>k. length (T k) < 2 ^ 32 \<and> unat (index k) = length (T k))"
proof -
  from assms(1) obtain b1 where
    1: "machine_begin h (me_attributes me) b = Inr b1"
    and 2: "run (item_element h) (me_items me) b1 = Inr b'"
    by (auto simp: machine_element_def)
  from machine_begin_layout [OF 1 assms(2)] obtain index where
    l1: "layout b1 = (L @ [(index, \<lambda>k. 0)], T)"
    and ix: "\<forall>k. length (T k) < 2 ^ 32 \<and> unat (index k) = length (T k)"
    by blast
  from items_layout [OF 2 l1] ix show ?thesis
    by (auto simp: children_of_def)
qed

lemma machines_layout:
  "run (machine_element h) mes b = Inr b' \<Longrightarrow> layout b = (L, T) \<Longrightarrow>
   \<exists>L'. layout b' = (L @ L', \<lambda>k. T k @ children_in k mes) \<and> length L' = length mes \<and>
     (\<forall>j < length mes. \<forall>k.
        length (T k) + length (children_in k (take j mes)) < 2 ^ 32 \<and>
        unat (fst (L' ! j) k) = length (T k) + length (children_in k (take j mes)) \<and>
        snd (L' ! j) k = word_of_nat (length (children_of k (mes ! j))))"
proof (induction mes arbitrary: b L T)
  case Nil
  then show ?case by (simp add: children_in_def)
next
  case (Cons me mes)
  from Cons.prems(1) obtain b1 where
    1: "machine_element h me b = Inr b1" and 2: "run (machine_element h) mes b1 = Inr b'"
    by auto
  from machine_element_layout [OF 1 Cons.prems(2)] obtain index where
    l1: "layout b1 =
      (L @ [(index, \<lambda>k. word_of_nat (length (children_of k me)))], \<lambda>k. T k @ children_of k me)"
    and ix: "\<forall>k. length (T k) < 2 ^ 32 \<and> unat (index k) = length (T k)"
    by blast
  from Cons.IH [OF 2 l1] obtain L' where
    l': "layout b' =
      ((L @ [(index, \<lambda>k. word_of_nat (length (children_of k me)))]) @ L',
       \<lambda>k. (T k @ children_of k me) @ children_in k mes)"
    and len: "length L' = length mes"
    and rest: "\<forall>j < length mes. \<forall>k.
        length (T k @ children_of k me) + length (children_in k (take j mes)) < 2 ^ 32 \<and>
        unat (fst (L' ! j) k) = length (T k @ children_of k me) + length (children_in k (take j mes)) \<and>
        snd (L' ! j) k = word_of_nat (length (children_of k (mes ! j)))"
    by blast
  let ?L = "(index, \<lambda>k. word_of_nat (length (children_of k me))) # L'"
  have a: "layout b' = (L @ ?L, \<lambda>k. T k @ children_in k (me # mes))"
    using l' by (simp add: children_in_def)
  have b: "length ?L = length (me # mes)" using len by simp
  have c: "length (T k) + length (children_in k (take j (me # mes))) < 2 ^ 32 \<and>
        unat (fst (?L ! j) k) = length (T k) + length (children_in k (take j (me # mes))) \<and>
        snd (?L ! j) k = word_of_nat (length (children_of k ((me # mes) ! j)))"
    if "j < length (me # mes)" for j k
  proof (cases j)
    case 0
    with ix show ?thesis by (simp add: children_in_def)
  next
    case (Suc j')
    with that have "j' < length mes" by simp
    with rest Suc show ?thesis by (simp add: children_in_def add.assoc)
  qed
  from a b c show ?case by blast
qed

lemma mame_begin_layout: "mame_begin h attrs b = Inr b' \<Longrightarrow> layout b' = layout b"
  by (auto simp: mame_begin_def layout_def)

lemma xml_parse_layout:
  assumes "xml_parse h doc = Inr b"
  shows "length (m_machines b) = length (d_machines doc) \<and>
    (\<forall>k. map c_fields (m_children b k) = children_in k (d_machines doc)) \<and>
    (\<forall>j < length (d_machines doc). \<forall>k.
        length (children_in k (take j (d_machines doc))) < 2 ^ 32 \<and>
        unat (m_index (m_machines b ! j) k) = length (children_in k (take j (d_machines doc))) \<and>
        m_count (m_machines b ! j) k = word_of_nat (length (children_of k (d_machines doc ! j))))"
proof -
  from assms obtain b0 where
    0: "mame_begin h (d_attributes doc) (builder_ctor h) = Inr b0"
    and 1: "run (machine_element h) (d_machines doc) b0 = Inr b"
    by (auto simp: xml_parse_def)
  have l0: "layout b0 = ([], \<lambda>k. [])"
    using mame_begin_layout [OF 0] by (simp add: layout_def builder_ctor_def)
  have "\<exists>L'. layout b = (L', \<lambda>k. children_in k (d_machines doc)) \<and>
     length L' = length (d_machines doc) \<and>
     (\<forall>j < length (d_machines doc). \<forall>k.
        length (children_in k (take j (d_machines doc))) < 2 ^ 32 \<and>
        unat (fst (L' ! j) k) = length (children_in k (take j (d_machines doc))) \<and>
        snd (L' ! j) k = word_of_nat (length (children_of k (d_machines doc ! j))))"
    using machines_layout [OF 1 l0] by simp
  then obtain L' where
    l: "layout b = (L', \<lambda>k. children_in k (d_machines doc))"
    and len: "length L' = length (d_machines doc)"
    and rest: "\<forall>j < length (d_machines doc). \<forall>k.
        length (children_in k (take j (d_machines doc))) < 2 ^ 32 \<and>
        unat (fst (L' ! j) k) = length (children_in k (take j (d_machines doc))) \<and>
        snd (L' ! j) k = word_of_nat (length (children_of k (d_machines doc ! j)))"
    by blast
  from l have m: "L' = map (\<lambda>m. (m_index m, m_count m)) (m_machines b)"
    by (simp add: layout_def)
  from l have t: "map c_fields (m_children b k) = children_in k (d_machines doc)" for k
    by (simp add: layout_def fun_eq_iff)
  from m len have n: "length (m_machines b) = length (d_machines doc)"
    by simp
  have p: "fst (L' ! j) = m_index (m_machines b ! j) \<and> snd (L' ! j) = m_count (m_machines b ! j)"
    if "j < length (d_machines doc)" for j
    using that n by (simp add: m)
  show ?thesis
  proof (intro conjI allI impI)
    show "length (m_machines b) = length (d_machines doc)" by (rule n)
  next
    fix k show "map c_fields (m_children b k) = children_in k (d_machines doc)" by (rule t)
  next
    fix j k assume j: "j < length (d_machines doc)"
    from rest j have r:
      "length (children_in k (take j (d_machines doc))) < 2 ^ 32 \<and>
       unat (fst (L' ! j) k) = length (children_in k (take j (d_machines doc))) \<and>
       snd (L' ! j) k = word_of_nat (length (children_of k (d_machines doc ! j)))"
      by blast
    from r show "length (children_in k (take j (d_machines doc))) < 2 ^ 32" by simp
    from r p [OF j]
    show "unat (m_index (m_machines b ! j) k) = length (children_in k (take j (d_machines doc)))"
      by simp
    from r p [OF j]
    show "m_count (m_machines b ! j) k = word_of_nat (length (children_of k (d_machines doc ! j)))"
      by simp
  qed
qed

lemma process_xml_Success:
  assumes "process_xml h doc order = Success hdr db"
  obtains b where "xml_parse h doc = Inr b" "d_error doc = None" "finish h order b = Inr (hdr, db)"
  using assms
  by (auto simp: process_xml_def split: sum.splits failure.splits option.splits)

lemma finish_Inr:
  assumes "finish h order b0 = Inr (hdr, db)"
  obtains t empty positions where
    "header_counts (b0\<lparr>m_strings := embed_value (MAGIC_STRINGTABLE_END h) (m_strings b0)\<rparr>) = Inr hdr"
    "sort_by (\<lambda>i j. name_less h (embed_value (MAGIC_STRINGTABLE_END h) (m_strings b0))
                       (m_machines b0 ! i) (m_machines b0 ! j)) [] order = Inr positions"
    "mset positions = mset order"
    "sorted_wrt (in_order h (embed_value (MAGIC_STRINGTABLE_END h) (m_strings b0)))
       (map (\<lambda>i. m_machines b0 ! i) positions)"
    "string_table_get h [] (embed_value (MAGIC_STRINGTABLE_END h) (m_strings b0)) = Inr (empty, t)"
    "m_machines db =
       map (fix_up (emplace_machines (emplace Map.empty empty (NOT 0)) 0
              (map (\<lambda>i. m_machines b0 ! i) positions)))
           (map (\<lambda>i. m_machines b0 ! i) positions)"
    "m_strings db = t"
    "m_children db = m_children b0"
proof -
  let ?b = "b0\<lparr>m_strings := embed_value (MAGIC_STRINGTABLE_END h) (m_strings b0)\<rparr>"
  from assms obtain srt empty t where
    1: "header_counts ?b = Inr hdr"
    and 2: "std_sort h (m_strings ?b) order (m_machines ?b) = Inr srt"
    and 3: "string_table_get h [] (m_strings ?b) = Inr (empty, t)"
    and 4: "db = ?b\<lparr>m_machines :=
          map (fix_up (emplace_machines (emplace Map.empty empty (NOT 0)) 0 srt)) srt,
        m_strings := t\<rparr>"
    by (auto simp: finish_def Let_def)
  from 2 have 5: "sorted_wrt (in_order h (m_strings ?b)) srt"
    by (rule std_sort_sorted)
  from 2 obtain positions where
    p: "sort_by (\<lambda>i j. name_less h (m_strings ?b) (m_machines ?b ! i) (m_machines ?b ! j)) [] order
          = Inr positions"
    and s: "srt = map (\<lambda>i. m_machines ?b ! i) positions"
    and m: "mset positions = mset order"
    by (rule std_sort_positions)
  show ?thesis
    by (rule that [of positions empty t]) (use 1 3 4 5 p s m in simp_all)
qed

lemma sorted_positions_eq:
  assumes "xml_parse h doc = Inr b"
    and "sort_by (\<lambda>i j. name_less h (embed_value (MAGIC_STRINGTABLE_END h) (m_strings b))
                       (m_machines b ! i) (m_machines b ! j)) [] order = Inr positions"
  shows "sorted_positions h doc order = positions"
  using assms by (simp add: sorted_positions_def)

text \<open>
  What a successful \<^verbatim>\<open>process_xml\<close> consists of: the parse, the header, the sort,
  the reference of the empty string and the rewritten machine table.
\<close>

lemma process_xml_sorted:
  assumes "process_xml h doc order = Success hdr db"
  obtains b t empty where
    "xml_parse h doc = Inr b"
    "header_counts (b\<lparr>m_strings := embed_value (MAGIC_STRINGTABLE_END h) (m_strings b)\<rparr>) = Inr hdr"
    "mset (sorted_positions h doc order) = mset order"
    "sorted_wrt (in_order h (embed_value (MAGIC_STRINGTABLE_END h) (m_strings b)))
       (map (\<lambda>i. m_machines b ! i) (sorted_positions h doc order))"
    "string_table_get h [] (embed_value (MAGIC_STRINGTABLE_END h) (m_strings b)) = Inr (empty, t)"
    "m_machines db =
       map (fix_up (emplace_machines (emplace Map.empty empty (NOT 0)) 0
              (map (\<lambda>i. m_machines b ! i) (sorted_positions h doc order))))
           (map (\<lambda>i. m_machines b ! i) (sorted_positions h doc order))"
    "m_strings db = t"
    "m_children db = m_children b"
proof -
  from assms obtain b where
    p: "xml_parse h doc = Inr b" and f: "finish h order b = Inr (hdr, db)"
    by (rule process_xml_Success)
  from f obtain t empty positions where
    1: "header_counts (b\<lparr>m_strings := embed_value (MAGIC_STRINGTABLE_END h) (m_strings b)\<rparr>) = Inr hdr"
    and 2: "sort_by (\<lambda>i j. name_less h (embed_value (MAGIC_STRINGTABLE_END h) (m_strings b))
                       (m_machines b ! i) (m_machines b ! j)) [] order = Inr positions"
    and 3: "mset positions = mset order"
    and 4: "sorted_wrt (in_order h (embed_value (MAGIC_STRINGTABLE_END h) (m_strings b)))
       (map (\<lambda>i. m_machines b ! i) positions)"
    and 5: "string_table_get h [] (embed_value (MAGIC_STRINGTABLE_END h) (m_strings b)) = Inr (empty, t)"
    and 6: "m_machines db =
       map (fix_up (emplace_machines (emplace Map.empty empty (NOT 0)) 0
              (map (\<lambda>i. m_machines b ! i) positions)))
           (map (\<lambda>i. m_machines b ! i) positions)"
    and 7: "m_strings db = t"
    and 8: "m_children db = m_children b"
    by (rule finish_Inr)
  note e = sorted_positions_eq [OF p 2]
  show ?thesis
    by (rule that [of b empty t]) (use p 1 3 4 5 6 7 8 in \<open>simp_all add: e\<close>)
qed

lemma header_counts_Inr:
  "header_counts b = Inr hdr \<Longrightarrow> length (m_machines b) < 2 ^ 32 \<and> length (m_children b k) < 2 ^ 32"
  by (auto simp: header_counts_def to_uint32_Inr_iff dest: to_uint32_sizes_Inr [OF _ all_kinds_complete])

lemma permutation_facts:
  assumes "mset order = mset [0 ..< n]"
  shows "length order = n" "distinct order" "\<And>i. i < n \<Longrightarrow> order ! i < n"
proof -
  show l: "length order = n"
    using mset_eq_length [OF assms] by simp
  show "distinct order"
    using mset_eq_imp_distinct_iff [OF assms] by simp
  fix i assume "i < n"
  with l have "order ! i \<in> set order" by simp
  also have "set order = set [0 ..< n]" using assms by (rule mset_eq_setD)
  finally show "order ! i < n" by simp
qed

lemma children_in_Suc:
  "j < length mes \<Longrightarrow>
   children_in k (take (Suc j) mes) = children_in k (take j mes) @ children_of k (mes ! j)"
  by (simp add: children_in_def take_Suc_conv_app_nth)

lemma children_in_mono:
  "i \<le> j \<Longrightarrow> length (children_in k (take i mes)) \<le> length (children_in k (take j mes))"
proof (induction j)
  case 0
  then show ?case by simp
next
  case (Suc j)
  show ?case
  proof (cases "i = Suc j")
    case True
    then show ?thesis by simp
  next
    case False
    with Suc.prems have ij: "i \<le> j" by simp
    show ?thesis
    proof (cases "j < length mes")
      case True
      with Suc.IH [OF ij] show ?thesis by (simp add: children_in_Suc)
    next
      case False
      then have "take (Suc j) mes = take j mes" by simp
      with Suc.IH [OF ij] show ?thesis by simp
    qed
  qed
qed

lemma children_in_split:
  assumes "j < length mes"
  shows "children_in k mes =
    children_in k (take j mes) @ children_of k (mes ! j) @ children_in k (drop (Suc j) mes)"
proof -
  have "mes = take j mes @ mes ! j # drop (Suc j) mes"
    using assms by (rule id_take_nth_drop)
  then have "children_in k mes = children_in k (take j mes @ mes ! j # drop (Suc j) mes)"
    by simp
  then show ?thesis by (simp add: children_in_def)
qed

lemma fix_up_fields [simp]:
  "m_index (fix_up M m) = m_index m" "m_count (fix_up M m) = m_count m"
  "m_name_strindex (fix_up M m) = m_name_strindex m"
  by (simp_all add: fix_up_def)

lemma finished_machine:
  assumes s: "process_xml h doc order = Success hdr db" and p: "xml_parse h doc = Inr b"
    and o: "mset order = mset [0 ..< length (d_machines doc)]"
    and i: "i < length (d_machines doc)"
  shows "sorted_positions h doc order ! i < length (d_machines doc) \<and>
    m_index (m_machines db ! i) = m_index (m_machines b ! (sorted_positions h doc order ! i)) \<and>
    m_count (m_machines db ! i) = m_count (m_machines b ! (sorted_positions h doc order ! i)) \<and>
    m_name_strindex (m_machines db ! i) =
      m_name_strindex (m_machines b ! (sorted_positions h doc order ! i))"
proof -
  let ?pos = "sorted_positions h doc order"
  from s obtain b' M where "xml_parse h doc = Inr b'"
    and pm: "mset ?pos = mset order"
    and m': "m_machines db = map (fix_up M) (map (\<lambda>i. m_machines b' ! i) ?pos)"
    by (rule process_xml_sorted) blast
  with p have m: "m_machines db = map (fix_up M) (map (\<lambda>i. m_machines b ! i) ?pos)"
    by simp
  from pm o have "mset ?pos = mset [0 ..< length (d_machines doc)]" by simp
  note perm = permutation_facts [OF this]
  from perm(1) i have "m_machines db ! i = fix_up M (m_machines b ! (?pos ! i))"
    by (simp add: m)
  with perm(3) [OF i] show ?thesis by simp
qed

lemma parsed_range:
  assumes p: "xml_parse h doc = Inr b" and c: "\<And>k. length (m_children b k) < 2 ^ 32"
    and j: "j < length (d_machines doc)"
  shows "unat (m_index (m_machines b ! j) k) = length (children_in k (take j (d_machines doc)))"
    and "unat (m_count (m_machines b ! j) k) = length (children_of k (d_machines doc ! j))"
    and "unat (m_index (m_machines b ! j) k) + unat (m_count (m_machines b ! j) k)
           = length (children_in k (take (Suc j) (d_machines doc)))"
    and "length (children_in k (take (Suc j) (d_machines doc))) \<le> length (m_children b k)"
    and "map c_fields (child_range b (m_machines b ! j) k) = children_of k (d_machines doc ! j)"
proof -
  let ?mes = "d_machines doc"
  note lay = xml_parse_layout [OF p]
  from lay have t: "map c_fields (m_children b k) = children_in k ?mes" by blast
  from lay j show ix: "unat (m_index (m_machines b ! j) k) = length (children_in k (take j ?mes))"
    by blast
  from lay j have cw: "m_count (m_machines b ! j) k = word_of_nat (length (children_of k (?mes ! j)))"
    by blast
  have len: "length (m_children b k) = length (children_in k ?mes)"
    using arg_cong [OF t, of length] by simp
  have split: "children_in k ?mes =
      children_in k (take j ?mes) @ children_of k (?mes ! j) @ children_in k (drop (Suc j) ?mes)"
    using j by (rule children_in_split)
  have "length (children_of k (?mes ! j)) \<le> length (children_in k ?mes)"
    by (subst split) simp
  with len c [of k] have small: "length (children_of k (?mes ! j)) < 2 ^ 32" by simp
  with cw show cn: "unat (m_count (m_machines b ! j) k) = length (children_of k (?mes ! j))"
    by (simp add: unat_word_of_nat_32)
  from ix cn j show "unat (m_index (m_machines b ! j) k) + unat (m_count (m_machines b ! j) k)
           = length (children_in k (take (Suc j) ?mes))"
    by (simp add: children_in_Suc)
  have "length (children_in k (take (Suc j) ?mes)) \<le> length (children_in k ?mes)"
    using j children_in_mono [of "Suc j" "length ?mes" k ?mes] by simp
  with len show "length (children_in k (take (Suc j) ?mes)) \<le> length (m_children b k)" by simp
  have "map c_fields (child_range b (m_machines b ! j) k) =
        take (length (children_of k (?mes ! j)))
          (drop (length (children_in k (take j ?mes))) (children_in k ?mes))"
    by (simp add: child_range_def ix cn take_map drop_map flip: t)
  also have "\<dots> = children_of k (?mes ! j)"
    by (subst split) simp
  finally show "map c_fields (child_range b (m_machines b ! j) k) = children_of k (?mes ! j)" .
qed

lemma ranges_apart:
  assumes p: "xml_parse h doc = Inr b" and c: "\<And>k. length (m_children b k) < 2 ^ 32"
    and i: "i < length (d_machines doc)" and j: "j < length (d_machines doc)" and ij: "i < j"
  shows "unat (m_index (m_machines b ! i) k) + unat (m_count (m_machines b ! i) k)
         \<le> unat (m_index (m_machines b ! j) k)"
proof -
  from ij have "Suc i \<le> j" by simp
  then have "length (children_in k (take (Suc i) (d_machines doc)))
      \<le> length (children_in k (take j (d_machines doc)))"
    by (rule children_in_mono)
  with parsed_range(3) [OF p c i, of k] parsed_range(1) [OF p c j, of k] show ?thesis
    by simp
qed

text \<open>
  C1.  After a successful \<^verbatim>\<open>process_xml\<close>, for the machine that the sort leaves
  at position \<open>i\<close> (parsed as machine number \<open>sorted_positions h doc order ! i\<close>)
  and every child table: the index field is the number of children of that kind
  parsed under earlier machine elements, the count field is the number parsed
  under this machine element, the range lies inside the table and holds exactly
  the children parsed under this machine element, in order; and the ranges of
  two different machines in the same table do not overlap.  The sorted table
  holds every machine of the document once.
\<close>

theorem contiguous_child_ranges:
  assumes "process_xml h doc order = Success hdr db"
    and "mset order = mset [0 ..< length (d_machines doc)]"
  shows "length (m_machines db) = length (d_machines doc) \<and>
    mset (sorted_positions h doc order) = mset [0 ..< length (d_machines doc)] \<and>
    (\<forall>k. map c_fields (m_children db k) = children_in k (d_machines doc)) \<and>
    (\<forall>i < length (d_machines doc). \<forall>k.
       unat (m_index (m_machines db ! i) k) =
         length (children_in k (take (sorted_positions h doc order ! i) (d_machines doc))) \<and>
       unat (m_count (m_machines db ! i) k) =
         length (children_of k (d_machines doc ! (sorted_positions h doc order ! i))) \<and>
       unat (m_index (m_machines db ! i) k) + unat (m_count (m_machines db ! i) k)
         \<le> length (m_children db k) \<and>
       map c_fields (child_range db (m_machines db ! i) k) =
         children_of k (d_machines doc ! (sorted_positions h doc order ! i))) \<and>
    (\<forall>i < length (d_machines doc). \<forall>j < length (d_machines doc). \<forall>k. i \<noteq> j \<longrightarrow>
       unat (m_index (m_machines db ! i) k) + unat (m_count (m_machines db ! i) k)
         \<le> unat (m_index (m_machines db ! j) k) \<or>
       unat (m_index (m_machines db ! j) k) + unat (m_count (m_machines db ! j) k)
         \<le> unat (m_index (m_machines db ! i) k))"
proof -
  let ?mes = "d_machines doc"
  let ?pos = "sorted_positions h doc order"
  from assms(1) obtain b where
    p: "xml_parse h doc = Inr b"
    and hc: "header_counts (b\<lparr>m_strings := embed_value (MAGIC_STRINGTABLE_END h) (m_strings b)\<rparr>)
      = Inr hdr"
    and pm: "mset ?pos = mset order"
    and ms: "length (m_machines db) = length ?pos"
    and ch: "m_children db = m_children b"
    by (rule process_xml_sorted) simp
  from pm assms(2) have 0: "mset ?pos = mset [0 ..< length ?mes]" by simp
  note perm = permutation_facts [OF 0]
  have c: "length (m_children b k) < 2 ^ 32" for k
    using header_counts_Inr [OF hc, of k] by simp
  note fm = finished_machine [OF assms(1) p assms(2)]
  have range_eq: "child_range db m k = child_range b m k" for m k
    by (simp add: child_range_def ch)
  have 1: "length (m_machines db) = length ?mes"
    using ms perm(1) by simp
  have 2: "map c_fields (m_children db k) = children_in k ?mes" for k
    using xml_parse_layout [OF p] ch by simp
  have 3: "unat (m_index (m_machines db ! i) k) = length (children_in k (take (?pos ! i) ?mes)) \<and>
       unat (m_count (m_machines db ! i) k) = length (children_of k (?mes ! (?pos ! i))) \<and>
       unat (m_index (m_machines db ! i) k) + unat (m_count (m_machines db ! i) k)
         \<le> length (m_children db k) \<and>
       map c_fields (child_range db (m_machines db ! i) k) = children_of k (?mes ! (?pos ! i))"
    if i: "i < length ?mes" for i k
  proof -
    from fm [OF i] have o: "?pos ! i < length ?mes"
      and e: "m_index (m_machines db ! i) = m_index (m_machines b ! (?pos ! i))"
        "m_count (m_machines db ! i) = m_count (m_machines b ! (?pos ! i))"
      by simp_all
    note r = parsed_range [OF p c o, of k]
    from r(3) r(4) have "unat (m_index (m_machines b ! (?pos ! i)) k) +
        unat (m_count (m_machines b ! (?pos ! i)) k) \<le> length (m_children b k)"
      by simp
    with r(1) r(2) r(5) show ?thesis
      by (simp add: e ch child_range_def)
  qed
  have 4: "unat (m_index (m_machines db ! i) k) + unat (m_count (m_machines db ! i) k)
         \<le> unat (m_index (m_machines db ! j) k) \<or>
       unat (m_index (m_machines db ! j) k) + unat (m_count (m_machines db ! j) k)
         \<le> unat (m_index (m_machines db ! i) k)"
    if i: "i < length ?mes" and j: "j < length ?mes" and ij: "i \<noteq> j" for i j k
  proof -
    from fm [OF i] have oi: "?pos ! i < length ?mes"
      and ei: "m_index (m_machines db ! i) = m_index (m_machines b ! (?pos ! i))"
        "m_count (m_machines db ! i) = m_count (m_machines b ! (?pos ! i))"
      by simp_all
    from fm [OF j] have oj: "?pos ! j < length ?mes"
      and ej: "m_index (m_machines db ! j) = m_index (m_machines b ! (?pos ! j))"
        "m_count (m_machines db ! j) = m_count (m_machines b ! (?pos ! j))"
      by simp_all
    from perm(1,2) i j ij have "?pos ! i \<noteq> ?pos ! j"
      by (simp add: nth_eq_iff_index_eq)
    then consider "?pos ! i < ?pos ! j" | "?pos ! j < ?pos ! i"
      by (cases "?pos ! i < ?pos ! j") auto
    then show ?thesis
    proof cases
      case 1
      from ranges_apart [OF p c oi oj 1, of k] show ?thesis by (simp add: ei ej)
    next
      case 2
      from ranges_apart [OF p c oj oi 2, of k] show ?thesis by (simp add: ei ej)
    qed
  qed
  from 0 1 2 3 4 show ?thesis by blast
qed

lemmas handler_defs =
  xml_parse_def mame_begin_def machine_element_def machine_begin_def item_element_def
  child_element_def child_begin_def nested_element_def text_end_def device_end_def
  nested_index_def new_child_def update_last_def attribute_text_def builder_ctor_def
  string_table_ctor_def embed_value_def string_table_get_def to_uint32_def then_do_def
  all_kinds_def


lemmas finish_defs =
  process_xml_def finish_def header_counts_def std_sort_def name_less_def machine_name_def
  in_order_def sorted_positions_def string_table_lookup_def c_str_def strlen_def

lemma example_success: "\<exists>hdr db. process_xml example_h example_doc [1, 0] = Success hdr db"
  by (simp add: finish_defs example_doc_def example_h_def handler_defs)

lemma example_positions: "sorted_positions example_h example_doc [1, 0] = [1, 0]"
  by (simp add: finish_defs example_doc_def example_h_def handler_defs)

theorem contiguous_child_ranges_witness:
  "mset [1, 0] = mset [0 ..< length (d_machines example_doc)] \<and>
   (\<exists>hdr db. process_xml example_h example_doc [1, 0] = Success hdr db \<and>
      length (m_machines db) = 2 \<and>
      sorted_positions example_h example_doc [1, 0] = [1, 0] \<and>
      map c_fields (m_children db Rom) = [1, 2] \<and>
      unat (m_index (m_machines db ! 0) Rom) = 1 \<and>
      unat (m_count (m_machines db ! 0) Rom) = 1 \<and>
      map c_fields (child_range db (m_machines db ! 0) Rom) = [2] \<and>
      unat (m_index (m_machines db ! 1) Rom) = 0 \<and>
      unat (m_count (m_machines db ! 1) Rom) = 1 \<and>
      map c_fields (child_range db (m_machines db ! 1) Rom) = [1])"
proof -
  have n: "length (d_machines example_doc) = 2"
    by (simp add: example_doc_def)
  have o: "mset [1, 0] = mset [0 ..< length (d_machines example_doc)]"
    by (simp add: n upt_rec)
  from example_success obtain hdr db where
    s: "process_xml example_h example_doc [1, 0] = Success hdr db"
    by blast
  note c = contiguous_child_ranges [OF s o]
  note pos = example_positions
  have ev: "children_in Rom (d_machines example_doc) = [1, 2]"
    "children_in Rom (take 1 (d_machines example_doc)) = [1]"
    "children_in Rom (take 0 (d_machines example_doc)) = []"
    "children_of Rom (d_machines example_doc ! 0) = [1]"
    "children_of Rom (d_machines example_doc ! 1) = [2]"
    by (simp_all add: children_in_def children_of_def items_children_def item_child_def
        example_doc_def)
  from c have 1: "length (m_machines db) = 2" by (simp add: n)
  from c have 2: "map c_fields (m_children db Rom) = [1, 2]" by (simp add: ev)
  note r = c [unfolded pos, THEN conjunct2, THEN conjunct2, THEN conjunct2, THEN conjunct1,
      rule_format]
  have i0: "0 < length (d_machines example_doc)" and i1: "1 < length (d_machines example_doc)"
    by (simp_all add: n)
  have 3: "unat (m_index (m_machines db ! 0) Rom) = 1"
    "unat (m_count (m_machines db ! 0) Rom) = 1"
    "map c_fields (child_range db (m_machines db ! 0) Rom) = [2]"
    using r [OF i0, of Rom] ev by simp_all
  have 4: "unat (m_index (m_machines db ! 1) Rom) = 0"
    "unat (m_count (m_machines db ! 1) Rom) = 1"
    "map c_fields (child_range db (m_machines db ! 1) Rom) = [1]"
    using r [OF i1, of Rom] ev by simp_all
  show ?thesis
    by (intro conjI exI) (fact o s 1 pos 2 3 4)+
qed

section \<open>Sizes that do not fit 32 bits\<close>

lemma to_uint32_too_large: "to_uint32 n = Inl e \<Longrightarrow> e = too_large"
  by (simp add: to_uint32_Inl_iff too_large_def)

lemma get_too_large: "string_table_get h s t = Inl e \<Longrightarrow> e = too_large"
  by (auto simp: string_table_get_def split: option.splits sum.splits dest: to_uint32_too_large)

lemma get_all_too_large: "get_all h ss t = Inl e \<Longrightarrow> e = too_large"
  by (induction ss arbitrary: t) (auto simp: then_do_Inl dest: get_too_large)

lemma to_uint32_sizes_too_large: "to_uint32_sizes sz ks = Inl e \<Longrightarrow> e = too_large"
  by (induction ks) (auto simp: then_do_Inl dest: to_uint32_too_large)

lemma update_last_Inl: "update_last f xs = Inl e \<Longrightarrow> xs = []"
  by (auto simp: update_last_def split: if_splits)

lemma machine_begin_too_large: "machine_begin h attrs b = Inl e \<Longrightarrow> e = too_large"
  by (auto simp: machine_begin_def then_do_Inl dest: get_too_large to_uint32_sizes_too_large)

lemma run_failure:
  assumes "run f xs s = Inl e" "Q s"
    and "\<And>x s. Q s \<Longrightarrow> f x s = Inl e \<Longrightarrow> P"
    and "\<And>x s s'. Q s \<Longrightarrow> f x s = Inr s' \<Longrightarrow> Q s'"
  shows P
  using assms(1,2)
proof (induction xs arbitrary: s)
  case Nil
  then show ?case by simp
next
  case (Cons x xs)
  from Cons.prems(1) consider "f x s = Inl e" | s' where "f x s = Inr s'" "run f xs s' = Inl e"
    by (auto simp: then_do_Inl)
  then show ?case
  proof cases
    case 1
    with Cons.prems(2) show ?thesis by (rule assms(3))
  next
    case 2
    from assms(4) [OF Cons.prems(2) 2(1)] have "Q s'" .
    with 2(2) show ?thesis by (rule Cons.IH)
  qed
qed

lemma layout_machines_nonempty: "layout b' = layout b \<Longrightarrow> m_machines b \<noteq> [] \<Longrightarrow> m_machines b' \<noteq> []"
  by (auto simp: layout_def)

lemma layout_children_nonempty:
  "layout b' = layout b \<Longrightarrow> m_children b k \<noteq> [] \<Longrightarrow> m_children b' k \<noteq> []"
  by (auto simp: layout_def fun_eq_iff dest!: spec [of _ k])

lemma child_begin_too_large:
  "child_begin h k e b = Inl x \<Longrightarrow> m_machines b \<noteq> [] \<Longrightarrow> x = too_large"
  by (auto simp: child_begin_def nested_index_def then_do_Inl split: if_splits
      dest: get_all_too_large get_too_large to_uint32_too_large update_last_Inl)

lemma child_begin_nonempty:
  "child_begin h k e b = Inr b' \<Longrightarrow> m_children b' k \<noteq> [] \<and> m_machines b' \<noteq> []"
  by (auto simp: child_begin_def update_last_Inr)

lemma condition_begin_too_large: "condition_begin h e b = Inl x \<Longrightarrow> x = too_large"
  by (auto simp: condition_begin_def then_do_Inl dest: get_too_large)

lemma conditions_too_large: "run (condition_begin h) es b = Inl x \<Longrightarrow> x = too_large"
  by (rule run_failure [where Q = "\<lambda>s. True" and f = "condition_begin h"])
     (auto dest: condition_begin_too_large)

lemma confsetting_begin_too_large:
  "confsetting_begin h e b = Inl x \<Longrightarrow> m_children b Configuration \<noteq> [] \<Longrightarrow> x = too_large"
  by (auto simp: confsetting_begin_def then_do_Inl
      dest: get_too_large to_uint32_too_large update_last_Inl)

lemma slotoption_begin_too_large:
  "slotoption_begin h e b = Inl x \<Longrightarrow> m_children b Slot \<noteq> [] \<Longrightarrow> x = too_large"
  by (auto simp: slotoption_begin_def then_do_Inl
      dest: get_all_too_large get_too_large update_last_Inl)

lemma instance_begin_too_large:
  "instance_begin h e b = Inl x \<Longrightarrow> m_children b Device \<noteq> [] \<Longrightarrow> x = too_large"
  by (auto simp: instance_begin_def then_do_Inl dest: get_too_large update_last_Inl)

lemma extension_begin_Inr: "\<exists>b'. extension_begin e b = Inr b'"
  by (simp add: extension_begin_def split: option.splits)

lemma device_end_too_large:
  "device_end h b = Inl x \<Longrightarrow> m_children b Device \<noteq> [] \<Longrightarrow> x = too_large"
  by (auto simp: device_end_def then_do_Inl split: if_splits dest: get_too_large update_last_Inl)

lemma nested_element_too_large:
  assumes "nested_element h k n b = Inl x" "m_children b k \<noteq> []"
  shows "x = too_large"
proof (cases n)
  case (Confsetting e conds)
  with assms show ?thesis
    by (auto simp: nested_element_def then_do_Inl split: if_splits
        dest: confsetting_begin_too_large conditions_too_large)
next
  case (Slotoption e)
  with assms show ?thesis
    by (auto simp: nested_element_def split: if_splits dest: slotoption_begin_too_large)
next
  case (Instance e)
  with assms show ?thesis
    by (auto simp: nested_element_def split: if_splits dest: instance_begin_too_large)
next
  case (Extension e)
  with assms extension_begin_Inr [of e b] show ?thesis
    by (auto simp: nested_element_def split: if_splits)
qed

lemma nested_elements_too_large:
  assumes "run (nested_element h k) ns b = Inl x" "m_children b k \<noteq> []"
  shows "x = too_large"
proof (rule run_failure [where Q = "\<lambda>s. m_children s k \<noteq> []", OF assms])
  fix n s assume "m_children s k \<noteq> []" "nested_element h k n s = Inl x"
  then show "x = too_large" by (rule nested_element_too_large [rotated])
next
  fix n s s' assume ne: "m_children s k \<noteq> []" and r: "nested_element h k n s = Inr s'"
  from nested_element_layout [OF r] ne show "m_children s' k \<noteq> []"
    by (rule layout_children_nonempty)
qed

lemma child_element_too_large:
  assumes "child_element h k e ns b = Inl x" "m_machines b \<noteq> []"
  shows "x = too_large"
proof -
  from assms(1) consider
    (a) "child_begin h k e b = Inl x"
    | (b) b1 where "child_begin h k e b = Inr b1" "run (nested_element h k) ns b1 = Inl x"
    | (c) b1 b2 where "child_begin h k e b = Inr b1" "run (nested_element h k) ns b1 = Inr b2"
        "k = Device" "device_end h b2 = Inl x"
    by (auto simp: child_element_def then_do_Inl split: if_splits)
  then show ?thesis
  proof cases
    case a
    from a assms(2) show ?thesis by (rule child_begin_too_large)
  next
    case b
    from child_begin_nonempty [OF b(1)] have "m_children b1 k \<noteq> []" by simp
    with b(2) show ?thesis by (rule nested_elements_too_large)
  next
    case c
    from child_begin_nonempty [OF c(1)] have "m_children b1 k \<noteq> []" by simp
    with nested_elements_layout [OF c(2)] have "m_children b2 k \<noteq> []"
      by (rule layout_children_nonempty)
    with c(3,4) show ?thesis by (auto dest: device_end_too_large)
  qed
qed

lemma text_end_too_large:
  "text_end h assign content b = Inl x \<Longrightarrow> m_machines b \<noteq> [] \<Longrightarrow> x = too_large"
  by (auto simp: text_end_def then_do_Inl dest: get_too_large update_last_Inl)

lemma item_element_too_large:
  "item_element h i b = Inl x \<Longrightarrow> m_machines b \<noteq> [] \<Longrightarrow> x = too_large"
  by (cases i)
     (auto simp: item_element_def dest: text_end_too_large child_element_too_large)

lemma item_element_nonempty:
  assumes "item_element h i b = Inr b'" "m_machines b \<noteq> []"
  shows "m_machines b' \<noteq> []"
proof -
  from assms(2) obtain L index cnt where
    "map (\<lambda>m. (m_index m, m_count m)) (m_machines b) = L @ [(index, cnt)]"
    by (metis (no_types, lifting) map_is_Nil_conv rev_exhaust surj_pair)
  then have "layout b = (L @ [(index, cnt)], \<lambda>k. map c_fields (m_children b k))"
    by (simp add: layout_def)
  from item_element_layout [OF assms(1) this] show ?thesis
    by (auto simp: layout_def)
qed

lemma machine_element_too_large: "machine_element h me b = Inl x \<Longrightarrow> x = too_large"
proof -
  assume "machine_element h me b = Inl x"
  then consider "machine_begin h (me_attributes me) b = Inl x"
    | b1 where "machine_begin h (me_attributes me) b = Inr b1"
        "run (item_element h) (me_items me) b1 = Inl x"
    by (auto simp: machine_element_def then_do_Inl)
  then show ?thesis
  proof cases
    case 1
    then show ?thesis by (rule machine_begin_too_large)
  next
    case 2
    from 2(1) have ne: "m_machines b1 \<noteq> []" by (auto simp: machine_begin_def)
    show ?thesis
    proof (rule run_failure [where Q = "\<lambda>s. m_machines s \<noteq> []", OF 2(2) ne])
      fix i s assume "m_machines s \<noteq> []" "item_element h i s = Inl x"
      then show "x = too_large" by (rule item_element_too_large [rotated])
    next
      fix i s s' assume "m_machines s \<noteq> []" "item_element h i s = Inr s'"
      then show "m_machines s' \<noteq> []" by (rule item_element_nonempty [rotated])
    qed
  qed
qed

lemma xml_parse_too_large:
  fixes doc :: "'p document"
  assumes "xml_parse h doc = Inl x"
  shows "x = too_large"
proof -
  from assms consider "mame_begin h (d_attributes doc) (builder_ctor h :: 'p builder) = Inl x"
    | b0 where "run (machine_element h) (d_machines doc) b0 = Inl x"
    by (auto simp: xml_parse_def then_do_Inl)
  then show ?thesis
  proof cases
    case 1
    then show ?thesis by (auto simp: mame_begin_def then_do_Inl dest: get_too_large)
  next
    case 2
    show ?thesis
      by (rule run_failure [where Q = "\<lambda>s. True", OF 2]) (auto dest: machine_element_too_large)
  qed
qed

lemma overflow_fails_parse:
  assumes "j < length (d_machines doc)"
    "2 ^ 32 \<le> length (children_in k (take j (d_machines doc)))"
  shows "process_xml h doc order = Failure ''Array size cannot fit in 32 bits''"
proof (cases "xml_parse h doc")
  case (Inl e)
  then have "e = too_large" by (rule xml_parse_too_large)
  with Inl show ?thesis by (simp add: process_xml_def too_large_def)
next
  case (Inr b)
  from xml_parse_layout [OF Inr] assms(1)
  have "length (children_in k (take j (d_machines doc))) < 2 ^ 32" by blast
  with assms(2) show ?thesis by simp
qed

text \<open>
  C4, as the code has it.  \<^verbatim>\<open>to_uint32\<close> guards container sizes: a size below
  \<open>2 ^ 32\<close> converts to the word of the same value, any other size throws.  A
  document in which the children of one kind parsed before some machine number
  \<open>2 ^ 32\<close> or more makes \<^verbatim>\<open>process_xml\<close> return false with the message of the
  exception, after which the task reports an error and emits no database.
\<close>

theorem array_size_overflow_is_fatal:
  "(n < 2 ^ 32 \<longrightarrow> (\<exists>w. to_uint32 n = Inr w \<and> unat w = n)) \<and>
   (2 ^ 32 \<le> n \<longrightarrow> to_uint32 n = Inl (logic_error ''Array size cannot fit in 32 bits'')) \<and>
   (j < length (d_machines doc) \<and> 2 ^ 32 \<le> length (children_in k (take j (d_machines doc))) \<longrightarrow>
      process_xml h doc order = Failure ''Array size cannot fit in 32 bits'' \<and>
      internalProcess False ''Array size cannot fit in 32 bits'' hasAborted file_opens fn
        \<noteq> Inr Emitted \<and>
      listxml_process False ''Array size cannot fit in 32 bits'' False file_opens fn =
        \<lparr>ev_status = ERROR,
         ev_errorMessage =
           ''Error parsing XML from MAME -listxml: Array size cannot fit in 32 bits''\<rparr>)"
proof (intro conjI impI)
  assume "n < 2 ^ 32"
  then show "\<exists>w. to_uint32 n = Inr w \<and> unat w = n"
    by (simp add: to_uint32_Inr_iff unat_word_of_nat_32)
next
  assume "2 ^ 32 \<le> n"
  then show "to_uint32 n = Inl (logic_error ''Array size cannot fit in 32 bits'')"
    by (simp add: to_uint32_Inl_iff)
next
  assume "j < length (d_machines doc) \<and> 2 ^ 32 \<le> length (children_in k (take j (d_machines doc)))"
  then show "process_xml h doc order = Failure ''Array size cannot fit in 32 bits''"
    by (auto intro: overflow_fails_parse)
next
  show "internalProcess False ''Array size cannot fit in 32 bits'' hasAborted file_opens fn
      \<noteq> Inr Emitted"
    by (simp add: internalProcess_def)
next
  show "listxml_process False ''Array size cannot fit in 32 bits'' False file_opens fn =
        \<lparr>ev_status = ERROR,
         ev_errorMessage =
           ''Error parsing XML from MAME -listxml: Array size cannot fit in 32 bits''\<rparr>"
    by (simp add: listxml_process_def internalProcess_def)
qed

theorem array_size_overflow_is_fatal_witness:
  "(\<exists>w. to_uint32 4294967295 = Inr w \<and> unat w = 4294967295) \<and>
   to_uint32 4294967296 = Inl (logic_error ''Array size cannot fit in 32 bits'') \<and>
   length (children_in Rom (take 1 (d_machines crowded_doc))) = 4294967296 \<and>
   process_xml example_h crowded_doc [1, 0] = Failure ''Array size cannot fit in 32 bits''"
proof -
  have j: "1 < length (d_machines crowded_doc)"
    by (simp add: crowded_doc_def)
  have c: "length (children_in Rom (take 1 (d_machines crowded_doc))) = 4294967296"
    by (simp add: crowded_doc_def children_in_def children_of_def items_children_def
        item_child_def length_concat sum_list_replicate comp_def)
  from array_size_overflow_is_fatal [of 4294967295 1 crowded_doc Rom example_h "[1, 0]"]
    array_size_overflow_is_fatal [of 4294967296 1 crowded_doc Rom example_h "[1, 0]"] j c
  show ?thesis by simp
qed

text \<open>
  C4, as the spec states it, fails for a \<^verbatim>\<open>size\<close> attribute: the handler of
  \<^verbatim>\<open>rom\<close> stores what the typed getter returns, or 0, and never calls
  \<^verbatim>\<open>to_uint32\<close> on it.  With the attribute \<^verbatim>\<open>size="4294967296"\<close> the build
  succeeds, whether the getter yields no value or a wrapped one.
\<close>

theorem size_attribute_is_not_guarded:
  "(case process_xml example_h (oversized_rom_doc (None :: uint32 option)) [0] of
      Success hdr db \<Rightarrow> map c_fields (m_children db Rom) = [None]
    | _ \<Rightarrow> False) \<and>
   (case process_xml example_h (oversized_rom_doc (Some (0 :: uint32))) [0] of
      Success hdr db \<Rightarrow> map c_fields (m_children db Rom) = [Some 0]
    | _ \<Rightarrow> False)"
  by (simp add: process_xml_def finish_def header_counts_def std_sort_def machine_name_def
      string_table_lookup_def c_str_def strlen_def
      oversized_rom_doc_def example_h_def handler_defs)

section \<open>The sorted machine table\<close>

lemma lower_bound_correct:
  "sorted names \<Longrightarrow> \<forall>s \<in> set names. NUL \<notin> set s \<Longrightarrow> NUL \<notin> set target \<Longrightarrow>
    lo \<le> hi \<Longrightarrow> hi \<le> length names \<Longrightarrow>
    (\<forall>j < lo. names ! j < target) \<Longrightarrow> (\<forall>j. hi \<le> j \<and> j < length names \<longrightarrow> target \<le> names ! j) \<Longrightarrow>
    lower_bound names target lo hi \<le> length names \<and>
    (\<forall>j < lower_bound names target lo hi. names ! j < target) \<and>
    (\<forall>j. lower_bound names target lo hi \<le> j \<and> j < length names \<longrightarrow> target \<le> names ! j)"
proof (induction names target lo hi rule: lower_bound.induct)
  case (1 names target lo hi)
  note srt = "1.prems"(1) and nul = "1.prems"(2) and tnul = "1.prems"(3)
    and lohi = "1.prems"(4) and hilen = "1.prems"(5) and lower = "1.prems"(6)
    and upper = "1.prems"(7)
  show ?case
  proof (cases "lo < hi")
    case False
    with lohi have "lo = hi" by simp
    with False hilen lower upper show ?thesis
      by (subst (1 2 3) lower_bound.simps) simp
  next
    case True
    define mid where "mid = lo + (hi - lo) div 2"
    from True have m: "lo \<le> mid" "mid < hi" by (simp_all add: mid_def)
    with hilen have ml: "mid < length names" by simp
    from ml nul have nm: "NUL \<notin> set (names ! mid)" by simp
    show ?thesis
    proof (cases "strcmp (names ! mid) target < 0")
      case lt: True
      then have less: "names ! mid < target"
        using strcmp_less_iff [OF nm tnul] by simp
      have below: "\<forall>j < mid + 1. names ! j < target"
      proof (intro allI impI)
        fix j assume "j < mid + 1"
        then have "j \<le> mid" by simp
        with srt ml have "names ! j \<le> names ! mid"
          by (simp add: sorted_nth_mono)
        with less show "names ! j < target" by simp
      qed
      have eq: "lower_bound names target lo hi = lower_bound names target (mid + 1) hi"
        using True lt by (subst lower_bound.simps) (simp add: mid_def Let_def)
      from m have "mid + 1 \<le> hi" by simp
      note ih = "1.IH"(1) [OF True mid_def lt srt nul tnul this hilen below upper]
      show ?thesis unfolding eq by (rule ih)
    next
      case ge: False
      then have geq: "target \<le> names ! mid"
        using strcmp_less_iff [OF nm tnul] by simp
      have above: "\<forall>j. mid \<le> j \<and> j < length names \<longrightarrow> target \<le> names ! j"
      proof (intro allI impI)
        fix j assume "mid \<le> j \<and> j < length names"
        with srt have "names ! mid \<le> names ! j"
          by (simp add: sorted_nth_mono)
        with geq show "target \<le> names ! j" by simp
      qed
      have eq: "lower_bound names target lo hi = lower_bound names target lo mid"
        using True ge by (subst lower_bound.simps) (simp add: mid_def Let_def)
      from m ml have "mid \<le> length names" by simp
      note ih = "1.IH"(2) [OF True mid_def ge srt nul tnul m(1) this lower above]
      show ?thesis unfolding eq by (rule ih)
    qed
  qed
qed

lemma collect_map_Inr: "collect (map Inr vs) = Inr vs"
  by (induction vs) (simp_all add: then_do_def)

lemma in_order_append:
  assumes "in_order h t a b" "m_data t' = m_data t @ extra"
  shows "in_order h t' (fix_up M a) (fix_up M b)"
proof -
  from assms(1) obtain x y where "machine_name h t a = Inr x" "machine_name h t b = Inr y"
    "strcmp x y \<le> 0" by (auto simp: in_order_iff)
  then have "machine_name h t' (fix_up M a) = Inr x" "machine_name h t' (fix_up M b) = Inr y"
    using lookup_append [OF _ assms(2)] by (simp_all add: machine_name_def)
  with \<open>strcmp x y \<le> 0\<close> show ?thesis by (auto simp: in_order_iff)
qed

lemma finished_table_sorted:
  assumes "process_xml h doc order = Success hdr db"
  shows "sorted_wrt (in_order h (m_strings db)) (m_machines db)"
  using assms
proof (rule process_xml_sorted)
  fix b t empty
  let ?srt = "map (\<lambda>i. m_machines b ! i) (sorted_positions h doc order)"
  assume s: "sorted_wrt (in_order h (embed_value (MAGIC_STRINGTABLE_END h) (m_strings b))) ?srt"
    and g: "string_table_get h [] (embed_value (MAGIC_STRINGTABLE_END h) (m_strings b)) = Inr (empty, t)"
    and m: "m_machines db =
       map (fix_up (emplace_machines (emplace Map.empty empty (NOT 0)) 0 ?srt)) ?srt"
    and t: "m_strings db = t"
  let ?M = "emplace_machines (emplace Map.empty empty (NOT 0)) 0 ?srt"
  from g obtain extra where
    e: "m_data t = m_data (embed_value (MAGIC_STRINGTABLE_END h) (m_strings b)) @ extra"
    by (auto dest: get_appends)
  have "sorted_wrt (\<lambda>x y. in_order h t (fix_up ?M x) (fix_up ?M y)) ?srt"
    by (rule sorted_wrt_mono_rel [OF _ s]) (rule in_order_append [OF _ e])
  then show ?thesis
    unfolding m t by (simp only: sorted_wrt_map)
qed

lemma find_machine_correct:
  assumes s: "sorted_wrt (in_order h (m_strings db)) (m_machines db)"
    and tn: "NUL \<notin> set target"
  shows "if \<exists>m \<in> set (m_machines db). machine_name h (m_strings db) m = Inr target
     then \<exists>m. find_machine h db target = Inr (Some m) \<and> m \<in> set (m_machines db) \<and>
            machine_name h (m_strings db) m = Inr target
     else find_machine h db target = Inr None \<or>
          (\<exists>e m. m_machines db = [m] \<and> machine_name h (m_strings db) m = Inl e)"
proof (cases "\<forall>m \<in> set (m_machines db). \<exists>s. machine_name h (m_strings db) m = Inr s")
  case False
  then obtain m where m: "m \<in> set (m_machines db)"
    and u: "\<forall>s. machine_name h (m_strings db) m \<noteq> Inr s" by blast
  have l: "length (m_machines db) = 1"
  proof (rule ccontr)
    assume "length (m_machines db) \<noteq> 1"
    from sorted_readable [OF s this m] u show False by blast
  qed
  with m have ms: "m_machines db = [m]"
    by (cases "m_machines db") auto
  from u obtain e where e: "machine_name h (m_strings db) m = Inl e"
    by (cases "machine_name h (m_strings db) m") auto
  from ms e have "\<not> (\<exists>m \<in> set (m_machines db). machine_name h (m_strings db) m = Inr target)"
    by simp
  with ms e show ?thesis by auto
next
  case True
  from bchoice [OF True] obtain name where
    name: "\<forall>m \<in> set (m_machines db). machine_name h (m_strings db) m = Inr (name m)"
    by blast
  let ?names = "map name (m_machines db)"
  let ?i = "lower_bound ?names target 0 (length ?names)"
  have "map (machine_name h (m_strings db)) (m_machines db) = map Inr ?names"
    using name by simp
  then have c: "collect (map (machine_name h (m_strings db)) (m_machines db)) = Inr ?names"
    by (simp only: collect_map_Inr)
  have f: "find_machine h db target =
      Inr (if ?i < length ?names \<and> strcmp (?names ! ?i) target = 0
           then Some (m_machines db ! ?i) else None)"
    by (simp add: find_machine_def c then_do_def Let_def)
  have nf: "\<forall>s \<in> set ?names. NUL \<notin> set s"
    using name by (auto dest: machine_name_NUL_free)
  have "sorted_wrt (\<lambda>m m'. name m \<le> name m') (m_machines db)"
  proof (rule sorted_wrt_mono_rel [OF _ s])
    fix a b assume a: "a \<in> set (m_machines db)" and b: "b \<in> set (m_machines db)"
      and "in_order h (m_strings db) a b"
    with name have "strcmp (name a) (name b) \<le> 0" by (auto simp: in_order_iff)
    moreover from nf a b have "NUL \<notin> set (name a)" "NUL \<notin> set (name b)" by simp_all
    ultimately show "name a \<le> name b" by (simp add: strcmp_le_iff)
  qed
  then have srt: "sorted ?names"
    by (simp add: sorted_wrt_map)
  have lb: "?i \<le> length ?names \<and> (\<forall>j < ?i. ?names ! j < target) \<and>
    (\<forall>j. ?i \<le> j \<and> j < length ?names \<longrightarrow> target \<le> ?names ! j)"
    by (rule lower_bound_correct [OF srt nf tn]) auto
  then have i: "?i \<le> length ?names" "\<forall>j < ?i. ?names ! j < target"
    "\<forall>j. ?i \<le> j \<and> j < length ?names \<longrightarrow> target \<le> ?names ! j"
    by blast+
  have present: "(\<exists>m \<in> set (m_machines db). machine_name h (m_strings db) m = Inr target)
      \<longleftrightarrow> target \<in> set ?names"
    using name by auto
  show ?thesis
  proof (cases "target \<in> set ?names")
    case True
    then obtain j where j: "j < length ?names" "?names ! j = target"
      by (auto simp: in_set_conv_nth)
    have ij: "?i \<le> j"
    proof (rule ccontr)
      assume "\<not> ?i \<le> j"
      then have "j < ?i" by simp
      with i(2) have "?names ! j < target" by simp
      with j(2) show False by simp
    qed
    with j have il: "?i < length ?names" by simp
    from i(3) il have "target \<le> ?names ! ?i" by simp
    moreover have "?names ! ?i \<le> target"
      using sorted_nth_mono [OF srt ij j(1)] j(2) by simp
    ultimately have eq: "?names ! ?i = target" by simp
    then have "strcmp (?names ! ?i) target = 0"
      using strcmp_eq_iff [OF tn tn] by simp
    with il have "find_machine h db target = Inr (Some (m_machines db ! ?i))"
      by (simp add: f)
    moreover from il have mem: "m_machines db ! ?i \<in> set (m_machines db)" by simp
    moreover from il eq have "name (m_machines db ! ?i) = target" by simp
    with name mem have "machine_name h (m_strings db) (m_machines db ! ?i) = Inr target"
      by simp
    ultimately show ?thesis using True present by auto
  next
    case False
    have "find_machine h db target = Inr None"
    proof (rule ccontr)
      assume "find_machine h db target \<noteq> Inr None"
      then have il: "?i < length ?names" and z: "strcmp (?names ! ?i) target = 0"
        by (auto simp: f split: if_splits)
      have "NUL \<notin> set (?names ! ?i)"
        by (rule bspec [OF nf nth_mem [OF il]])
      from z strcmp_eq_iff [OF this tn] have "?names ! ?i = target" by simp
      with nth_mem [OF il] have "target \<in> set ?names" by simp
      with False show False by simp
    qed
    with False present show ?thesis by simp
  qed
qed

text \<open>
  C3.  After a successful \<^verbatim>\<open>process_xml\<close> the machine table is in non-decreasing
  order of the names the string table returns, compared by \<^verbatim>\<open>strcmp\<close>: every
  record is in order with every later one.  Hence the binary search finds, for
  every name that some machine has, a machine with exactly that name, and
  reports that there is none for every other name.  The sort does not compare a
  table of a single machine; if the name of that machine cannot be read, the
  search cannot read it either.
\<close>

theorem machines_sorted_for_lookup:
  assumes "process_xml h doc order = Success hdr db"
  shows "sorted_wrt (in_order h (m_strings db)) (m_machines db) \<and>
    (\<forall>target. NUL \<notin> set target \<longrightarrow>
       (if \<exists>m \<in> set (m_machines db). machine_name h (m_strings db) m = Inr target
        then \<exists>m. find_machine h db target = Inr (Some m) \<and> m \<in> set (m_machines db) \<and>
               machine_name h (m_strings db) m = Inr target
        else find_machine h db target = Inr None \<or>
             (\<exists>e m. m_machines db = [m] \<and> machine_name h (m_strings db) m = Inl e)))"
proof -
  have s: "sorted_wrt (in_order h (m_strings db)) (m_machines db)"
    using assms by (rule finished_table_sorted)
  show ?thesis
  proof (intro conjI allI impI)
    show "sorted_wrt (in_order h (m_strings db)) (m_machines db)"
      by (rule s)
  next
    fix target :: string assume "NUL \<notin> set target"
    then show "if \<exists>m \<in> set (m_machines db). machine_name h (m_strings db) m = Inr target
        then \<exists>m. find_machine h db target = Inr (Some m) \<and> m \<in> set (m_machines db) \<and>
               machine_name h (m_strings db) m = Inr target
        else find_machine h db target = Inr None \<or>
             (\<exists>e m. m_machines db = [m] \<and> machine_name h (m_strings db) m = Inl e)"
      by (rule find_machine_correct [OF s])
  qed
qed

text \<open>
  The example document, its machines taken in the order of their declaration.
\<close>

lemma example_names:
  "(case process_xml example_h example_doc [0, 1] of
      Success hdr db \<Rightarrow>
        map (machine_name example_h (m_strings db)) (m_machines db) = [Inr ''aaa'', Inr ''bbb'']
    | _ \<Rightarrow> False)"
  by (simp add: finish_defs fix_up_def example_doc_def example_h_def handler_defs)

theorem machines_sorted_for_lookup_witness:
  "\<exists>hdr db.
     process_xml example_h example_doc [0, 1] = Success hdr db \<and>
     map (machine_name example_h (m_strings db)) (m_machines db) = [Inr ''aaa'', Inr ''bbb''] \<and>
     in_order example_h (m_strings db) (m_machines db ! 0) (m_machines db ! 1) \<and>
     (\<exists>m. find_machine example_h db ''bbb'' = Inr (Some m) \<and>
          machine_name example_h (m_strings db) m = Inr ''bbb'') \<and>
     find_machine example_h db ''abc'' = Inr None"
proof -
  from example_names obtain hdr db where
    s: "process_xml example_h example_doc [0, 1] = Success hdr db"
    and n: "map (machine_name example_h (m_strings db)) (m_machines db) = [Inr ''aaa'', Inr ''bbb'']"
    by (auto split: outcome.splits)
  note c = machines_sorted_for_lookup [OF s]
  note t = c [THEN conjunct2, rule_format]
  from n obtain a b where ms: "m_machines db = [a, b]"
    and a: "machine_name example_h (m_strings db) a = Inr ''aaa''"
    and b: "machine_name example_h (m_strings db) b = Inr ''bbb''"
    by (auto simp: map_eq_Cons_conv)
  from c ms have 0: "in_order example_h (m_strings db) (m_machines db ! 0) (m_machines db ! 1)"
    by simp
  have 1: "\<exists>m. find_machine example_h db ''bbb'' = Inr (Some m) \<and>
          machine_name example_h (m_strings db) m = Inr ''bbb''"
    using t [of "''bbb''"] ms a b by auto
  have 2: "find_machine example_h db ''abc'' = Inr None"
    using t [of "''abc''"] ms a b by auto
  show ?thesis
    by (rule exI [of _ hdr], rule exI [of _ db], intro conjI) (rule s n 0 1 2)+
qed

section \<open>References between machines\<close>

lemma grows_trans: "grows h t' t'' \<Longrightarrow> grows h t t' \<Longrightarrow> grows h t t''"
  by (induction rule: grows.induct) (auto intro: grows.intros)

lemma grows_get1: "string_table_get h s t = Inr (r, t') \<Longrightarrow> grows h t t'"
  by (rule grows_get [OF grows_refl])

lemma grows_reachable: "grows h t t' \<Longrightarrow> reachable h t \<Longrightarrow> reachable h t'"
  by (induction rule: grows.induct) (auto intro: reachable.intros)

lemma get_map_mono:
  "string_table_get h s t = Inr (r, t') \<Longrightarrow> m_map t s' = Some r' \<Longrightarrow> m_map t' s' = Some r'"
  by (erule get_cases) auto

lemma grows_map_mono: "grows h t t' \<Longrightarrow> m_map t s = Some r \<Longrightarrow> m_map t' s = Some r"
  by (induction rule: grows.induct) (auto simp: embed_value_def dest: get_map_mono)

lemma interned_grows: "interned h t s r \<Longrightarrow> grows h t t' \<Longrightarrow> interned h t' s r"
  by (auto simp: interned_def dest: grows_map_mono)

lemma get_interned: "string_table_get h s t = Inr (r, t') \<Longrightarrow> interned h t' s r"
  by (erule get_cases) (auto simp: interned_def)

lemma interned_functional: "interned h t s r \<Longrightarrow> interned h t s r' \<Longrightarrow> r = r'"
  by (auto simp: interned_def)

lemma interned_lookup:
  assumes "interned h t s r" "string_table_inv t" "faithful h t s"
  shows "string_table_lookup h t r = Inr s"
proof (cases "tryEncodeAsSmallString h s")
  case (Some v)
  with assms(1) have "v = r" by (simp add: interned_def)
  with Some assms(3) show ?thesis
    by (auto simp: faithful_def string_table_lookup_def split: option.splits)
next
  case None
  with assms(1) have m: "m_map t s = Some r" by (simp add: interned_def)
  with assms(2) have "stored_at t s r" by (simp add: string_table_inv_def)
  moreover from assms(3) have "NUL \<notin> set s" by (simp add: faithful_def)
  moreover from assms(3) None m have "tryDecodeAsSmallString h r = None"
    by (simp add: faithful_def)
  ultimately show ?thesis by (rule lookup_stored_at)
qed

lemma interned_injective:
  assumes "interned h t s r" "interned h t s' r" "string_table_inv t"
    "faithful h t s" "faithful h t s'"
  shows "s = s'"
  using interned_lookup [OF assms(1,3,4)] interned_lookup [OF assms(2,3,5)] by simp

lemma get_all_grows: "get_all h ss t = Inr (rs, t') \<Longrightarrow> grows h t t'"
proof (induction ss arbitrary: t rs)
  case Nil
  then show ?case by (simp add: grows_refl)
next
  case (Cons s ss)
  from Cons.prems obtain r t1 rs' where
    1: "string_table_get h s t = Inr (r, t1)" and 2: "get_all h ss t1 = Inr (rs', t')"
    by auto
  from Cons.IH [OF 2] grows_get1 [OF 1] show ?case by (rule grows_trans)
qed

lemma keeps_refl: "keeps h b b"
  by (simp add: keeps_def grows_refl)

lemma keeps_trans: "keeps h b b' \<Longrightarrow> keeps h b' b'' \<Longrightarrow> keeps h b b''"
  by (auto simp: keeps_def intro: grows_trans)

lemma run_keeps:
  assumes "\<And>x s s'. f x s = Inr s' \<Longrightarrow> keeps h s s'"
  shows "run f xs s = Inr s' \<Longrightarrow> keeps h s s'"
proof (induction xs arbitrary: s)
  case Nil
  then show ?case by (simp add: keeps_refl)
next
  case (Cons x xs)
  from Cons.prems obtain s1 where 1: "f x s = Inr s1" and 2: "run f xs s1 = Inr s'"
    by auto
  from assms [OF 1] Cons.IH [OF 2] show ?case by (rule keeps_trans)
qed

lemma name_refs_update_last:
  assumes "xs \<noteq> []"
    "m_name_strindex (f (last xs)) = m_name_strindex (last xs)"
    "m_clone_of_machindex (f (last xs)) = m_clone_of_machindex (last xs)"
    "m_rom_of_machindex (f (last xs)) = m_rom_of_machindex (last xs)"
  shows "map (\<lambda>m. (m_name_strindex m, m_clone_of_machindex m, m_rom_of_machindex m))
           (butlast xs @ [f (last xs)]) =
         map (\<lambda>m. (m_name_strindex m, m_clone_of_machindex m, m_rom_of_machindex m)) xs"
proof -
  have "xs = butlast xs @ [last xs]" using assms(1) by simp
  then have "map (\<lambda>m. (m_name_strindex m, m_clone_of_machindex m, m_rom_of_machindex m)) xs =
    map (\<lambda>m. (m_name_strindex m, m_clone_of_machindex m, m_rom_of_machindex m))
      (butlast xs @ [last xs])" by simp
  then show ?thesis using assms(2-4) by simp
qed

lemma condition_begin_keeps: "condition_begin h e b = Inr b' \<Longrightarrow> keeps h b b'"
  by (auto simp: condition_begin_def keeps_def name_refs_def intro: grows_get1)

lemma confsetting_begin_keeps: "confsetting_begin h e b = Inr b' \<Longrightarrow> keeps h b b'"
  by (auto simp: confsetting_begin_def keeps_def name_refs_def intro: grows_get1)

lemma slotoption_begin_keeps:
  assumes "slotoption_begin h e b = Inr b'"
  shows "keeps h b b'"
proof -
  from assms obtain refs t where
    g: "get_all h (map (attribute_text (e_attributes e)) [''name'', ''devname'']) (m_strings b)
         = Inr (refs, t)"
    and m: "m_machines b' = m_machines b" and s: "m_strings b' = t"
    by (auto simp: slotoption_begin_def simp del: get_all.simps)
  from get_all_grows [OF g] m s show ?thesis by (simp add: keeps_def name_refs_def)
qed

lemma instance_begin_keeps: "instance_begin h e b = Inr b' \<Longrightarrow> keeps h b b'"
  by (auto simp: instance_begin_def keeps_def name_refs_def intro: grows_get1)

lemma extension_begin_keeps: "extension_begin e b = Inr b' \<Longrightarrow> keeps h b b'"
  by (auto simp: extension_begin_def keeps_def name_refs_def grows_refl split: option.splits)

lemma device_end_keeps: "device_end h b = Inr b' \<Longrightarrow> keeps h b b'"
  by (auto simp: device_end_def keeps_def name_refs_def grows_refl split: if_splits intro: grows_get1)

lemma conditions_keeps: "run (condition_begin h) es b = Inr b' \<Longrightarrow> keeps h b b'"
  by (rule run_keeps [where f = "condition_begin h" and h = h, OF condition_begin_keeps])

lemma nested_element_keeps:
  assumes "nested_element h k n b = Inr b'"
  shows "keeps h b b'"
proof (cases n)
  case (Confsetting e conds)
  show ?thesis
  proof (cases "k = Configuration")
    case True
    with assms Confsetting obtain b1 where
      "confsetting_begin h e b = Inr b1" "run (condition_begin h) conds b1 = Inr b'"
      by (auto simp: nested_element_def)
    then show ?thesis
      by (blast intro: keeps_trans confsetting_begin_keeps conditions_keeps)
  next
    case False
    with assms Confsetting show ?thesis by (simp add: nested_element_def keeps_refl)
  qed
next
  case (Slotoption e)
  with assms show ?thesis
    by (auto simp: nested_element_def keeps_refl split: if_splits intro: slotoption_begin_keeps)
next
  case (Instance e)
  with assms show ?thesis
    by (auto simp: nested_element_def keeps_refl split: if_splits intro: instance_begin_keeps)
next
  case (Extension e)
  with assms show ?thesis
    by (auto simp: nested_element_def keeps_refl split: if_splits intro: extension_begin_keeps)
qed

lemma child_begin_keeps:
  assumes "child_begin h k e b = Inr b'"
  shows "keeps h b b'"
proof -
  from assms obtain refs t where
    g: "get_all h (map (attribute_text (e_attributes e)) (string_attributes k)) (m_strings b)
         = Inr (refs, t)"
    and ne: "m_machines b \<noteq> []"
    and m: "m_machines b' = butlast (m_machines b) @
       [(last (m_machines b))\<lparr>m_count := (m_count (last (m_machines b)))
           (k := m_count (last (m_machines b)) k + 1)\<rparr>]"
    and s: "m_strings b' = t"
    by (auto simp: child_begin_def update_last_Inr)
  have "name_refs b' = name_refs b"
    unfolding name_refs_def m by (rule name_refs_update_last [OF ne]) simp_all
  with get_all_grows [OF g] s show ?thesis by (simp add: keeps_def)
qed

lemma child_element_keeps:
  assumes "child_element h k e ns b = Inr b'"
  shows "keeps h b b'"
proof -
  from assms obtain b1 b2 where
    1: "child_begin h k e b = Inr b1"
    and 2: "run (nested_element h k) ns b1 = Inr b2"
    and 3: "(if k = Device then device_end h b2 else Inr b2) = Inr b'"
    by (auto simp: child_element_def)
  have "keeps h b b1" using 1 by (rule child_begin_keeps)
  moreover have "keeps h b1 b2"
    by (rule run_keeps [where f = "nested_element h k" and h = h, OF nested_element_keeps 2])
  moreover have "keeps h b2 b'"
    using 3 by (auto split: if_splits intro: device_end_keeps keeps_refl)
  ultimately show ?thesis by (blast intro: keeps_trans)
qed

lemma text_end_keeps:
  assumes "text_end h assign content b = Inr b'"
    "\<And>r m. m_name_strindex (assign r m) = m_name_strindex m"
    "\<And>r m. m_clone_of_machindex (assign r m) = m_clone_of_machindex m"
    "\<And>r m. m_rom_of_machindex (assign r m) = m_rom_of_machindex m"
  shows "keeps h b b'"
proof -
  from assms(1) obtain r t where
    g: "string_table_get h content (m_strings b) = Inr (r, t)"
    and ne: "m_machines b \<noteq> []"
    and m: "m_machines b' = butlast (m_machines b) @ [assign r (last (m_machines b))]"
    and s: "m_strings b' = t"
    by (auto simp: text_end_def update_last_Inr)
  have "name_refs b' = name_refs b"
    unfolding name_refs_def m by (rule name_refs_update_last [OF ne]) (simp_all add: assms(2-4))
  with grows_get1 [OF g] s show ?thesis by (simp add: keeps_def)
qed

lemma item_element_keeps:
  assumes "item_element h i b = Inr b'"
  shows "keeps h b b'"
proof (cases i)
  case (Child k e ns)
  with assms show ?thesis by (auto simp: item_element_def intro: child_element_keeps)
next
  case (Description c)
  with assms show ?thesis by (auto simp: item_element_def intro: text_end_keeps)
next
  case (Year c)
  with assms show ?thesis by (auto simp: item_element_def intro: text_end_keeps)
next
  case (Manufacturer c)
  with assms show ?thesis by (auto simp: item_element_def intro: text_end_keeps)
next
  case (Other n)
  with assms show ?thesis by (simp add: item_element_def keeps_refl)
qed

lemma named_grows: "named h t attrs refs \<Longrightarrow> grows h t t' \<Longrightarrow> named h t' attrs refs"
  by (auto simp: named_def intro: interned_grows)

lemma machine_begin_names:
  assumes "machine_begin h attrs b = Inr b'"
  shows "\<exists>refs. name_refs b' = name_refs b @ [refs] \<and> grows h (m_strings b) (m_strings b') \<and>
           named h (m_strings b') attrs refs"
proof -
  from assms obtain nm t1 sf t2 cl t3 ro t4 index where
    1: "string_table_get h (attribute_text attrs ''name'') (m_strings b) = Inr (nm, t1)"
    and 2: "string_table_get h (attribute_text attrs ''sourcefile'') t1 = Inr (sf, t2)"
    and 3: "string_table_get h (attribute_text attrs ''cloneof'') t2 = Inr (cl, t3)"
    and 4: "string_table_get h (attribute_text attrs ''romof'') t3 = Inr (ro, t4)"
    and m: "m_machines b' = m_machines b @
       [\<lparr>m_name_strindex = nm, m_sourcefile_strindex = sf, m_clone_of_machindex = cl,
         m_rom_of_machindex = ro, m_description_strindex = 0, m_year_strindex = 0,
         m_manufacturer_strindex = 0, m_index = index, m_count = (\<lambda>k. 0)\<rparr>]"
    and s: "m_strings b' = t4"
    by (auto simp: machine_begin_def)
  note g1 = grows_get1 [OF 1] and g2 = grows_get1 [OF 2]
    and g3 = grows_get1 [OF 3] and g4 = grows_get1 [OF 4]
  have g34: "grows h t2 t4" using g4 g3 by (rule grows_trans)
  have g24: "grows h t1 t4" using g34 g2 by (rule grows_trans)
  have g: "grows h (m_strings b) t4" using g24 g1 by (rule grows_trans)
  have "interned h t4 (attribute_text attrs ''name'') nm"
    using get_interned [OF 1] g24 by (rule interned_grows)
  moreover have "interned h t4 (attribute_text attrs ''cloneof'') cl"
    using get_interned [OF 3] g4 by (rule interned_grows)
  moreover have "interned h t4 (attribute_text attrs ''romof'') ro"
    by (rule get_interned [OF 4])
  ultimately have "named h t4 attrs (nm, cl, ro)" by (simp add: named_def)
  moreover have "name_refs b' = name_refs b @ [(nm, cl, ro)]" by (simp add: name_refs_def m)
  ultimately show ?thesis using g s by auto
qed

lemma machine_element_names:
  assumes "machine_element h me b = Inr b'"
  shows "\<exists>refs. name_refs b' = name_refs b @ [refs] \<and> grows h (m_strings b) (m_strings b') \<and>
           named h (m_strings b') (me_attributes me) refs"
proof -
  from assms obtain b1 where
    1: "machine_begin h (me_attributes me) b = Inr b1"
    and 2: "run (item_element h) (me_items me) b1 = Inr b'"
    by (auto simp: machine_element_def)
  from machine_begin_names [OF 1] obtain refs where
    n: "name_refs b1 = name_refs b @ [refs]" and g: "grows h (m_strings b) (m_strings b1)"
    and d: "named h (m_strings b1) (me_attributes me) refs"
    by blast
  have k: "keeps h b1 b'"
    by (rule run_keeps [where f = "item_element h" and h = h, OF item_element_keeps 2])
  then have n': "name_refs b' = name_refs b1" and g': "grows h (m_strings b1) (m_strings b')"
    by (simp_all add: keeps_def)
  have "grows h (m_strings b) (m_strings b')" using g' g by (rule grows_trans)
  moreover have "named h (m_strings b') (me_attributes me) refs" using d g' by (rule named_grows)
  ultimately show ?thesis using n n' by auto
qed

lemma machines_names:
  "run (machine_element h) mes b = Inr b' \<Longrightarrow>
   \<exists>N. name_refs b' = name_refs b @ N \<and> length N = length mes \<and> grows h (m_strings b) (m_strings b') \<and>
       (\<forall>j < length mes. named h (m_strings b') (me_attributes (mes ! j)) (N ! j))"
proof (induction mes arbitrary: b)
  case Nil
  then show ?case by (simp add: grows_refl)
next
  case (Cons me mes)
  from Cons.prems obtain b1 where
    1: "machine_element h me b = Inr b1" and 2: "run (machine_element h) mes b1 = Inr b'"
    by auto
  from machine_element_names [OF 1] obtain refs where
    n: "name_refs b1 = name_refs b @ [refs]" and g: "grows h (m_strings b) (m_strings b1)"
    and d: "named h (m_strings b1) (me_attributes me) refs"
    by blast
  from Cons.IH [OF 2] obtain N where
    n': "name_refs b' = name_refs b1 @ N" and l: "length N = length mes"
    and g': "grows h (m_strings b1) (m_strings b')"
    and r: "\<forall>j < length mes. named h (m_strings b') (me_attributes (mes ! j)) (N ! j)"
    by blast
  have a: "name_refs b' = name_refs b @ (refs # N)" using n n' by simp
  have c: "grows h (m_strings b) (m_strings b')" using g' g by (rule grows_trans)
  have e: "named h (m_strings b') (me_attributes ((me # mes) ! j)) ((refs # N) ! j)"
    if "j < length (me # mes)" for j
  proof (cases j)
    case 0
    with named_grows [OF d g'] show ?thesis by simp
  next
    case (Suc j')
    with that r show ?thesis by simp
  qed
  from a l c e show ?case
    by (intro exI [of _ "refs # N"]) simp
qed

lemma xml_parse_names:
  assumes "xml_parse h doc = Inr b"
  shows "reachable h (m_strings b) \<and>
    (\<forall>j < length (d_machines doc).
       named h (m_strings b) (me_attributes (d_machines doc ! j))
         (m_name_strindex (m_machines b ! j), m_clone_of_machindex (m_machines b ! j),
          m_rom_of_machindex (m_machines b ! j)))"
proof -
  from assms obtain b0 where
    0: "mame_begin h (d_attributes doc) (builder_ctor h) = Inr b0"
    and 1: "run (machine_element h) (d_machines doc) b0 = Inr b"
    by (auto simp: xml_parse_def)
  from 0 have n0: "name_refs b0 = []" and r0: "reachable h (m_strings b0)"
    by (auto simp: mame_begin_def name_refs_def builder_ctor_def
        intro: reachable_get [OF reachable_ctor])
  from machines_names [OF 1] n0 obtain N where
    n: "name_refs b = N" and l: "length N = length (d_machines doc)"
    and g: "grows h (m_strings b0) (m_strings b)"
    and d: "\<forall>j < length (d_machines doc).
          named h (m_strings b) (me_attributes (d_machines doc ! j)) (N ! j)"
    by auto
  have len: "length (m_machines b) = length (d_machines doc)"
    using arg_cong [OF n, of length] l by (simp add: name_refs_def)
  have "N ! j = (m_name_strindex (m_machines b ! j), m_clone_of_machindex (m_machines b ! j),
          m_rom_of_machindex (m_machines b ! j))" if "j < length (d_machines doc)" for j
    using that len by (simp add: n [symmetric] name_refs_def)
  with d grows_reachable [OF g r0] show ?thesis by simp
qed

lemma first_index_SomeD:
  "first_index r xs = Some j \<Longrightarrow> j < length xs \<and> m_name_strindex (xs ! j) = r"
  by (induction xs arbitrary: j) (auto split: if_splits)

lemma first_index_least:
  "first_index r xs = Some j \<Longrightarrow> i < j \<Longrightarrow> m_name_strindex (xs ! i) \<noteq> r"
proof (induction xs arbitrary: i j)
  case Nil
  then show ?case by simp
next
  case (Cons x xs)
  show ?case
  proof (cases "m_name_strindex x = r")
    case True
    with Cons.prems show ?thesis by simp
  next
    case False
    with Cons.prems(1) obtain j' where j': "first_index r xs = Some j'" "j = Suc j'"
      by auto
    show ?thesis
    proof (cases i)
      case 0
      with False show ?thesis by simp
    next
      case (Suc i')
      with Cons.prems(2) j'(2) have "i' < j'" by simp
      from Cons.IH [OF j'(1) this] Suc show ?thesis by simp
    qed
  qed
qed

lemma first_index_NoneD: "first_index r xs = None \<Longrightarrow> m \<in> set xs \<Longrightarrow> m_name_strindex m \<noteq> r"
  by (induction xs) (auto split: if_splits)

lemma emplace_machines_eq:
  "emplace_machines m i xs r =
     (case m r of Some v \<Rightarrow> Some v
      | None \<Rightarrow> map_option (\<lambda>j. word_of_nat (i + j)) (first_index r xs))"
proof (induction xs arbitrary: m i)
  case Nil
  then show ?case by (simp split: option.splits)
next
  case (Cons x xs)
  show ?case
    by (simp add: Cons.IH emplace_def option.map_comp comp_def ac_simps split: option.splits)
qed

lemma index_map_lookup:
  "machineIndexFromStringIndex (emplace_machines (emplace Map.empty e0 (NOT 0)) 0 xs) c =
     (if c = e0 then NOT 0
      else case first_index c xs of Some j \<Rightarrow> word_of_nat j | None \<Rightarrow> NOT 0)"
  by (simp add: machineIndexFromStringIndex_def emplace_machines_eq emplace_def
      split: option.splits)

lemma resolve_reference:
  fixes doc :: "'p document" and db :: "'p builder"
  assumes inv: "string_table_inv (m_strings db)"
    and e0: "interned h (m_strings db) [] e0"
    and fa: "\<forall>s \<in> referenced_strings doc. faithful h (m_strings db) s"
    and perm: "mset positions = mset [0 ..< length (d_machines doc)]"
    and small: "length (d_machines doc) < 2 ^ 32"
    and len: "length srt = length (d_machines doc)"
    and nm: "\<And>q. q < length (d_machines doc) \<Longrightarrow>
        interned h (m_strings db) (attribute (d_machines doc ! (positions ! q)) ''name'')
          (m_name_strindex (srt ! q))"
    and fin: "\<And>q. q < length (d_machines doc) \<Longrightarrow>
        m_name_strindex (m_machines db ! q) = m_name_strindex (srt ! q)"
    and v: "interned h (m_strings db) v c" "v \<in> referenced_strings doc"
  shows "resolved h doc positions db v
    (machineIndexFromStringIndex (emplace_machines (emplace Map.empty e0 (NOT 0)) 0 srt) c)"
proof -
  let ?n = "length (d_machines doc)"
  let ?t = "m_strings db"
  let ?x = "machineIndexFromStringIndex (emplace_machines (emplace Map.empty e0 (NOT 0)) 0 srt) c"
  note pf = permutation_facts [OF perm]
  have x: "?x = (if c = e0 then NOT 0
      else case first_index c srt of Some j \<Rightarrow> word_of_nat j | None \<Rightarrow> NOT 0)"
    by (rule index_map_lookup)
  have f0: "faithful h ?t []" using fa by (simp add: referenced_strings_def)
  have fv: "faithful h ?t v" using fa v(2) by blast
  have fn: "faithful h ?t (attribute (d_machines doc ! (positions ! q)) ''name'')" if "q < ?n" for q
  proof -
    from pf(3) [OF that] have "d_machines doc ! (positions ! q) \<in> set (d_machines doc)" by simp
    then have "attribute (d_machines doc ! (positions ! q)) ''name'' \<in> referenced_strings doc"
      by (auto simp: referenced_strings_def)
    with fa show ?thesis by blast
  qed
  show ?thesis
  proof (cases "v = []")
    case True
    with v(1) e0 have "c = e0" by (auto dest: interned_functional)
    with x True show ?thesis by (simp add: resolved_def)
  next
    case False
    have ce: "c \<noteq> e0"
    proof
      assume "c = e0"
      with v(1) have "interned h ?t v e0" by simp
      from interned_injective [OF this e0 inv fv f0] False show False by simp
    qed
    show ?thesis
    proof (cases "first_index c srt")
      case (Some q)
      from first_index_SomeD [OF Some] len have q: "q < ?n" and r: "m_name_strindex (srt ! q) = c"
        by simp_all
      from nm [OF q] r have "interned h ?t (attribute (d_machines doc ! (positions ! q)) ''name'') c"
        by simp
      from interned_injective [OF this v(1) inv fn [OF q] fv]
      have eq: "attribute (d_machines doc ! (positions ! q)) ''name'' = v" .
      from pf(3) [OF q] have "d_machines doc ! (positions ! q) \<in> set (d_machines doc)" by simp
      with eq have mem: "v \<in> (\<lambda>me. attribute me ''name'') ` set (d_machines doc)" by blast
      from q small have u: "unat (word_of_nat q :: uint32) = q"
        by (simp add: unat_word_of_nat_32)
      have lk: "machine_name h ?t (m_machines db ! q) = Inr v"
        using interned_lookup [OF v(1) inv fv] fin [OF q] r by (simp add: machine_name_def)
      have first: "attribute (d_machines doc ! (positions ! j)) ''name'' \<noteq> v" if j: "j < q" for j
      proof
        assume a: "attribute (d_machines doc ! (positions ! j)) ''name'' = v"
        from j q have "j < ?n" by simp
        from nm [OF this] a have "interned h ?t v (m_name_strindex (srt ! j))" by simp
        with v(1) have "m_name_strindex (srt ! j) = c" by (rule interned_functional [symmetric])
        with first_index_least [OF Some j] show False by simp
      qed
      from x ce Some have "?x = word_of_nat q" by simp
      with False mem u q eq lk first show ?thesis by (simp add: resolved_def)
    next
      case None
      have "v \<notin> (\<lambda>me. attribute me ''name'') ` set (d_machines doc)"
      proof
        assume "v \<in> (\<lambda>me. attribute me ''name'') ` set (d_machines doc)"
        then obtain j where j: "j < ?n" "attribute (d_machines doc ! j) ''name'' = v"
          by (auto simp: in_set_conv_nth)
        from j(1) have "j \<in> set [0 ..< ?n]" by simp
        also have "set [0 ..< ?n] = set positions" using mset_eq_setD [OF perm] by simp
        finally obtain q where q: "q < length positions" "positions ! q = j"
          by (auto simp: in_set_conv_nth)
        with pf(1) have qn: "q < ?n" by simp
        from nm [OF qn] q(2) j(2) have "interned h ?t v (m_name_strindex (srt ! q))" by simp
        with v(1) have "m_name_strindex (srt ! q) = c" by (rule interned_functional [symmetric])
        moreover from qn len have "srt ! q \<in> set srt" by simp
        ultimately show False using first_index_NoneD [OF None] by blast
      qed
      moreover from x ce None have "?x = NOT 0" by simp
      ultimately show ?thesis by (simp add: resolved_def)
    qed
  qed
qed

text \<open>
  C2.  After a successful \<^verbatim>\<open>process_xml\<close>, for every machine of the final table
  the \<^verbatim>\<open>clone_of\<close> and \<^verbatim>\<open>rom_of\<close> fields are resolved: when the \<^verbatim>\<open>cloneof\<close>
  (\<^verbatim>\<open>romof\<close>) attribute of its element is not empty and is the name of a machine
  of the document, wherever declared, the field is the first index in the sorted
  table of a machine with that name, and the name read back from the string
  table at that index is the attribute value; when the attribute is absent,
  empty, or the name of no machine, the field is the all-bits-set sentinel.  The
  names and the \<^verbatim>\<open>cloneof\<close> and \<^verbatim>\<open>romof\<close> values of the document are taken to have
  no NUL byte, and the small-string functions, which are not among the sources,
  to be faithful on them and on the empty string.
\<close>

theorem cross_references_resolved:
  fixes doc :: "'p document"
  assumes "process_xml h doc order = Success hdr db"
    and "mset order = mset [0 ..< length (d_machines doc)]"
    and "\<forall>s \<in> referenced_strings doc. faithful h (m_strings db) s"
  shows "\<forall>i < length (d_machines doc).
     resolved h doc (sorted_positions h doc order) db
       (attribute (d_machines doc ! (sorted_positions h doc order ! i)) ''cloneof'')
       (m_clone_of_machindex (m_machines db ! i)) \<and>
     resolved h doc (sorted_positions h doc order) db
       (attribute (d_machines doc ! (sorted_positions h doc order ! i)) ''romof'')
       (m_rom_of_machindex (m_machines db ! i))"
  using assms(1)
proof (rule process_xml_sorted)
  fix b :: "'p builder" and t e0
  let ?n = "length (d_machines doc)"
  let ?pos = "sorted_positions h doc order"
  let ?t1 = "embed_value (MAGIC_STRINGTABLE_END h) (m_strings b)"
  let ?srt = "map (\<lambda>i. m_machines b ! i) ?pos"
  let ?M = "emplace_machines (emplace Map.empty e0 (NOT 0)) 0 ?srt"
  assume p: "xml_parse h doc = Inr b"
    and hc: "header_counts (b\<lparr>m_strings := ?t1\<rparr>) = Inr hdr"
    and pm: "mset ?pos = mset order"
    and g: "string_table_get h [] ?t1 = Inr (e0, t)"
    and M: "m_machines db = map (fix_up ?M) ?srt"
    and t: "m_strings db = t"
  from pm assms(2) have perm: "mset ?pos = mset [0 ..< ?n]" by simp
  note pf = permutation_facts [OF perm]
  note pn = xml_parse_names [OF p]
  have len: "length (m_machines b) = ?n"
    using xml_parse_layout [OF p] by simp
  have gr: "grows h (m_strings b) (m_strings db)"
    unfolding t by (rule grows_get [OF grows_embed [OF grows_refl] g])
  have inv: "string_table_inv (m_strings db)"
    using pn gr by (auto intro: reachable_inv grows_reachable)
  have e0: "interned h (m_strings db) [] e0"
    unfolding t by (rule get_interned [OF g])
  have small: "?n < 2 ^ 32"
    using header_counts_Inr [OF hc] len by simp
  have slen: "length ?srt = ?n" using pf(1) by simp
  have nd: "named h (m_strings db) (me_attributes (d_machines doc ! (?pos ! q)))
      (m_name_strindex (?srt ! q), m_clone_of_machindex (?srt ! q), m_rom_of_machindex (?srt ! q))"
    if "q < ?n" for q
  proof -
    from pf(3) [OF that] pn
    have "named h (m_strings b) (me_attributes (d_machines doc ! (?pos ! q)))
      (m_name_strindex (m_machines b ! (?pos ! q)), m_clone_of_machindex (m_machines b ! (?pos ! q)),
       m_rom_of_machindex (m_machines b ! (?pos ! q)))" by blast
    then have "named h (m_strings db) (me_attributes (d_machines doc ! (?pos ! q)))
      (m_name_strindex (m_machines b ! (?pos ! q)), m_clone_of_machindex (m_machines b ! (?pos ! q)),
       m_rom_of_machindex (m_machines b ! (?pos ! q)))" using gr by (rule named_grows)
    with that pf(1) show ?thesis by simp
  qed
  have nm: "interned h (m_strings db) (attribute (d_machines doc ! (?pos ! q)) ''name'')
      (m_name_strindex (?srt ! q))" if "q < ?n" for q
    using nd [OF that] by (simp add: named_def attribute_def)
  have fin: "m_name_strindex (m_machines db ! q) = m_name_strindex (?srt ! q)" if "q < ?n" for q
    using that pf(1) by (simp add: M)
  show ?thesis
  proof (intro allI impI)
    fix i assume i: "i < ?n"
    have mem: "d_machines doc ! (?pos ! i) \<in> set (d_machines doc)"
      using pf(3) [OF i] by simp
    have fi: "m_machines db ! i = fix_up ?M (?srt ! i)"
      using i pf(1) by (simp add: M)
    have c1: "interned h (m_strings db) (attribute (d_machines doc ! (?pos ! i)) ''cloneof'')
        (m_clone_of_machindex (?srt ! i))"
      using nd [OF i] by (simp add: named_def attribute_def)
    have c2: "interned h (m_strings db) (attribute (d_machines doc ! (?pos ! i)) ''romof'')
        (m_rom_of_machindex (?srt ! i))"
      using nd [OF i] by (simp add: named_def attribute_def)
    have r1: "attribute (d_machines doc ! (?pos ! i)) ''cloneof'' \<in> referenced_strings doc"
      and r2: "attribute (d_machines doc ! (?pos ! i)) ''romof'' \<in> referenced_strings doc"
      using mem by (auto simp: referenced_strings_def)
    have "resolved h doc ?pos db (attribute (d_machines doc ! (?pos ! i)) ''cloneof'')
        (machineIndexFromStringIndex ?M (m_clone_of_machindex (?srt ! i)))"
      by (rule resolve_reference [OF inv e0 assms(3) perm small slen nm fin c1 r1])
    moreover have "resolved h doc ?pos db (attribute (d_machines doc ! (?pos ! i)) ''romof'')
        (machineIndexFromStringIndex ?M (m_rom_of_machindex (?srt ! i)))"
      by (rule resolve_reference [OF inv e0 assms(3) perm small slen nm fin c2 r2])
    ultimately show "resolved h doc ?pos db (attribute (d_machines doc ! (?pos ! i)) ''cloneof'')
         (m_clone_of_machindex (m_machines db ! i)) \<and>
       resolved h doc ?pos db (attribute (d_machines doc ! (?pos ! i)) ''romof'')
         (m_rom_of_machindex (m_machines db ! i))"
      by (simp add: fi fix_up_def)
  qed
qed

text \<open>
  The document with two machines called \<^verbatim>\<open>dup\<close>: the sort puts \<^verbatim>\<open>ccc\<close> first, and
  its \<^verbatim>\<open>clone_of\<close> field is the index of the first \<^verbatim>\<open>dup\<close>.
\<close>

lemma twins_faithful:
  "(case process_xml example_h twins_doc [0, 1, 2] of
      Success hdr db \<Rightarrow>
        faithful example_h (m_strings db) [] \<and>
        faithful example_h (m_strings db) ''ccc'' \<and>
        faithful example_h (m_strings db) ''dup''
    | _ \<Rightarrow> False)"
  by (simp add: faithful_def finish_defs fix_up_def twins_doc_def example_h_def handler_defs)

lemma twins_referenced: "referenced_strings twins_doc = {[], ''ccc'', ''dup''}"
  by (auto simp: referenced_strings_def attribute_def attribute_text_def twins_doc_def)

lemma twins_positions: "sorted_positions example_h twins_doc [0, 1, 2] = [1, 0, 2]"
  by (simp add: finish_defs twins_doc_def example_h_def handler_defs)

theorem cross_references_resolved_witness:
  "mset [0, 1, 2] = mset [0 ..< length (d_machines twins_doc)] \<and>
   (\<exists>hdr db. process_xml example_h twins_doc [0, 1, 2] = Success hdr db \<and>
      faithful example_h (m_strings db) [] \<and>
      faithful example_h (m_strings db) ''ccc'' \<and>
      faithful example_h (m_strings db) ''dup'' \<and>
      sorted_positions example_h twins_doc [0, 1, 2] = [1, 0, 2] \<and>
      m_clone_of_machindex (m_machines db ! 0) = 1 \<and>
      machine_name example_h (m_strings db) (m_machines db ! 1) = Inr ''dup'' \<and>
      m_rom_of_machindex (m_machines db ! 0) = NOT 0 \<and>
      m_clone_of_machindex (m_machines db ! 1) = NOT 0 \<and>
      m_rom_of_machindex (m_machines db ! 1) = NOT 0 \<and>
      m_clone_of_machindex (m_machines db ! 2) = NOT 0 \<and>
      m_rom_of_machindex (m_machines db ! 2) = 0)"
proof -
  have n: "length (d_machines twins_doc) = 3"
    by (simp add: twins_doc_def)
  have o: "mset [0, 1, 2] = mset [0 ..< length (d_machines twins_doc)]"
    by (simp add: n upt_rec)
  from twins_faithful obtain hdr db where
    s: "process_xml example_h twins_doc [0, 1, 2] = Success hdr db"
    and f: "faithful example_h (m_strings db) []"
      "faithful example_h (m_strings db) ''ccc''"
      "faithful example_h (m_strings db) ''dup''"
    by (auto split: outcome.splits)
  from f have fa: "\<forall>s \<in> referenced_strings twins_doc. faithful example_h (m_strings db) s"
    by (simp add: twins_referenced)
  note pos = twins_positions
  note r = cross_references_resolved [OF s o fa, unfolded pos, rule_format]
  have i0: "0 < length (d_machines twins_doc)" and i1: "1 < length (d_machines twins_doc)"
    and i2: "2 < length (d_machines twins_doc)"
    by (simp_all add: n)
  have at: "attribute (d_machines twins_doc ! 0) ''name'' = ''dup''"
    "attribute (d_machines twins_doc ! 0) ''cloneof'' = []"
    "attribute (d_machines twins_doc ! 0) ''romof'' = []"
    "attribute (d_machines twins_doc ! 1) ''name'' = ''ccc''"
    "attribute (d_machines twins_doc ! 1) ''cloneof'' = ''dup''"
    "attribute (d_machines twins_doc ! 1) ''romof'' = []"
    "attribute (d_machines twins_doc ! 2) ''name'' = ''dup''"
    "attribute (d_machines twins_doc ! 2) ''cloneof'' = []"
    "attribute (d_machines twins_doc ! 2) ''romof'' = ''ccc''"
    by (simp_all add: attribute_def attribute_text_def twins_doc_def)
  have img: "(\<lambda>me. attribute me ''name'') ` set (d_machines twins_doc) = {''ccc'', ''dup''}"
    by (auto simp: attribute_def attribute_text_def twins_doc_def)
  have nth: "[1, 0, 2] ! 0 = (1 :: nat)" "[1, 0, 2] ! 1 = (0 :: nat)" "[1, 0, 2] ! 2 = (2 :: nat)"
    by simp_all
  let ?c = "m_clone_of_machindex (m_machines db ! 0)"
  from r [OF i0] have c: "unat ?c < 3"
    "attribute (d_machines twins_doc ! ([1, 0, 2] ! unat ?c)) ''name'' = ''dup''"
    "\<forall>j < unat ?c. attribute (d_machines twins_doc ! ([1, 0, 2] ! j)) ''name'' \<noteq> ''dup''"
    "machine_name example_h (m_strings db) (m_machines db ! unat ?c) = Inr ''dup''"
    and 2: "m_rom_of_machindex (m_machines db ! 0) = NOT 0"
    unfolding resolved_def nth at img n by simp_all
  from c(1) consider "unat ?c = 0" | "unat ?c = 1" | "unat ?c = 2"
    by linarith
  then have u: "unat ?c = 1"
  proof cases
    case 1
    with c(2) show ?thesis by (simp only: nth at) simp
  next
    case 2
    then show ?thesis .
  next
    case 3
    with c(3) [rule_format, of 1]
    have "attribute (d_machines twins_doc ! ([1, 0, 2] ! 1)) ''name'' \<noteq> ''dup''"
      by simp
    then show ?thesis by (simp only: nth at)
  qed
  then have 1: "?c = 1" by (metis unat_1 word_unat_eq_iff)
  from c(4) u have 3: "machine_name example_h (m_strings db) (m_machines db ! 1) = Inr ''dup''"
    by simp
  from r [OF i1] have 4: "m_clone_of_machindex (m_machines db ! 1) = NOT 0"
    "m_rom_of_machindex (m_machines db ! 1) = NOT 0"
    unfolding resolved_def nth at img n by simp_all
  let ?d = "m_rom_of_machindex (m_machines db ! 2)"
  from r [OF i2] have 5: "m_clone_of_machindex (m_machines db ! 2) = NOT 0"
    and d: "unat ?d < 3"
    "attribute (d_machines twins_doc ! ([1, 0, 2] ! unat ?d)) ''name'' = ''ccc''"
    unfolding resolved_def nth at img n by simp_all
  from d(1) consider "unat ?d = 0" | "unat ?d = 1" | "unat ?d = 2"
    by linarith
  then have "unat ?d = 0"
  proof cases
    case 1
    then show ?thesis .
  next
    case 2
    with d(2) show ?thesis by (simp only: nth at) simp
  next
    case 3
    with d(2) show ?thesis by (simp only: nth at) simp
  qed
  then have 6: "?d = 0" by (simp add: unat_eq_0)
  show ?thesis
    by (intro conjI exI) (fact o s f pos 1 2 3 4 5 6)+
qed

text \<open>
  C2, as the spec states it, fails for an empty name: the index map is seeded with
  the reference of the empty string mapped to the sentinel, and \<^verbatim>\<open>emplace\<close> does
  not replace it.  In the document with the machines \<^verbatim>\<open><machine name=""/>\<close> and
  \<^verbatim>\<open><machine name="bbb" cloneof=""/>\<close> the \<^verbatim>\<open>cloneof\<close> attribute is present and
  equals the name of the machine at index 0 of the sorted table, yet the
  \<^verbatim>\<open>clone_of\<close> field of \<^verbatim>\<open>bbb\<close> is the sentinel.
\<close>

theorem empty_reference_is_not_resolved:
  "(case process_xml example_h unnamed_doc [0, 1] of
      Success hdr db \<Rightarrow>
        me_attributes (d_machines unnamed_doc ! 1) ''cloneof'' = Some [] \<and>
        me_attributes (d_machines unnamed_doc ! 0) ''name'' = Some [] \<and>
        machine_name example_h (m_strings db) (m_machines db ! 0) = Inr [] \<and>
        machine_name example_h (m_strings db) (m_machines db ! 1) = Inr ''bbb'' \<and>
        m_clone_of_machindex (m_machines db ! 1) = NOT 0
    | _ \<Rightarrow> False)"
  by (simp add: finish_defs fix_up_def unnamed_doc_def example_h_def handler_defs
      emplace_def machineIndexFromStringIndex_def)


end
